theory Spec2Isabelle
  imports Main
begin

section \<open>The session player of lib/client: data model\<close>

text \<open>
  The player states are the three constants \<open>stateStopped = iota\<close>, \<open>stateStopping\<close>,
  \<open>statePlaying\<close> of the source; the field \<open>state\<close> only ever holds one of them.
\<close>

datatype pstate = stateStopped | stateStopping | statePlaying

text \<open>
  Modelled from the spec: the event type constants \<open>events.SessionPrintEvent\<close>,
  \<open>events.ResizeEvent\<close> and \<open>events.SessionStartEvent\<close> and the accessors
  \<open>GetString\<close>/\<open>GetInt\<close> of \<open>events.EventFields\<close> are declared in lib/events, which is
  not part of the sources. The spec's data model gives an event a kind, one of Print, Resize,
  SessionStart and Other, and the fields the player reads. An event is the record of what the
  accessors return: \<open>e_type\<close> for \<open>GetString(events.EventType)\<close>, \<open>e_ms\<close> for
  \<open>GetInt("ms")\<close>, \<open>e_offset\<close> for \<open>GetInt("offset")\<close>, \<open>e_bytes\<close> for \<open>GetInt("bytes")\<close>,
  \<open>e_size\<close> for \<open>GetString("size")\<close> and \<open>e_time\<close> for \<open>GetString("time")\<close>.
\<close>

datatype kind = SessionPrintEvent | ResizeEvent | SessionStartEvent | OtherEvent

record event =
  e_type :: kind
  e_ms :: int
  e_offset :: int
  e_bytes :: int
  e_size :: string
  e_time :: string

text \<open>
  What the playback does to the outside world, in order: bytes written to \<open>os.Stdout\<close>
  (\<open>Write\<close> and \<open>WriteString\<close>) and calls of \<open>p.clock.Sleep\<close> with a duration in
  nanoseconds.
\<close>

datatype action = Write string | Sleep int

datatype error = Deadlock | SliceBoundsOutOfRange | IndexOutOfRange

text \<open>
  The struct \<open>sessionPlayer\<close>. \<open>locked\<close> is the embedded \<open>sync.Mutex\<close>. \<open>termSize\<close> is what
  \<open>p.term.Size()\<close> answers: \<open>Some (width, height)\<close>, or \<open>None\<close> when it returns an error.
  The channel \<open>stopC\<close> carries no value; only its closing is observable, so it is modelled
  by \<open>stopC_closes\<close>, the number of times \<open>close(p.stopC)\<close> has been executed (a second
  close of a Go channel panics). \<open>stopOnce\<close> is the done flag of the \<open>sync.Once\<close>.
  \<open>out\<close> is the trace of actions performed so far.
\<close>

record sessionPlayer =
  locked :: bool
  state :: pstate
  position :: int
  sessionEvents :: "event list"
  stream :: string
  termSize :: "(int \<times> int) option"
  stopC_closes :: nat
  stopOnce :: bool
  out :: "action list"

definition newSessionPlayer :: "event list \<Rightarrow> string \<Rightarrow> (int \<times> int) option \<Rightarrow> sessionPlayer" where
  "newSessionPlayer evs strm trm =
     \<lparr> locked = False, state = stateStopped, position = -1, sessionEvents = evs,
       stream = strm, termSize = trm, stopC_closes = 0, stopOnce = False, out = [] \<rparr>"

section \<open>Durations and formatting\<close>

text \<open>
  \<open>time.Duration\<close> is an \<open>int64\<close> count of nanoseconds, and \<open>int\<close> has 64 bits on the
  platforms the client is built for. Go's integer arithmetic wraps around silently;
  \<open>wrap64\<close> is the two's complement value of a mathematical integer.
\<close>

definition wrap64 :: "int \<Rightarrow> int" where
  "wrap64 x = (x + 2 ^ 63) mod 2 ^ 64 - 2 ^ 63"

definition Millisecond :: int where
  "Millisecond = 1000000"

definition Second :: int where
  "Second = 1000000000"

definition ESC :: char where
  "ESC = CHR 0x1B"

text \<open>The verb \<open>%d\<close> of \<open>fmt.Sprintf\<close>: decimal digits, with a minus sign when negative.\<close>

function sprint_nat :: "nat \<Rightarrow> string" where
  "sprint_nat n =
     (if n < 10 then [char_of (48 + n)]
      else sprint_nat (n div 10) @ [char_of (48 + n mod 10)])"
  by pat_completeness auto
termination
  by (relation "measure (\<lambda>n. n)") auto

definition sprint_d :: "int \<Rightarrow> string" where
  "sprint_d i = (if i < 0 then CHR ''-'' # sprint_nat (nat (- i)) else sprint_nat (nat i))"

text \<open>\<open>strings.Split(s, sep)\<close> for a separator of one byte.\<close>

fun Split :: "string \<Rightarrow> char \<Rightarrow> string list" where
  "Split [] sep = [[]]"
| "Split (c # cs) sep =
     (if c = sep then [] # Split cs sep
      else (case Split cs sep of [] \<Rightarrow> [[c]] | w # ws \<Rightarrow> (c # w) # ws))"

section \<open>State changes\<close>

text \<open>\<open>setState\<close>: the broadcast on the condition variable wakes the waiters, who then
  read the state again (see \<open>wake\<close> below).\<close>

definition setState :: "pstate \<Rightarrow> sessionPlayer \<Rightarrow> sessionPlayer" where
  "setState s p = p\<lparr>state := s\<rparr>"

text \<open>\<open>notifyStopped\<close>: \<open>p.stopOnce.Do(func() { close(p.stopC) })\<close>.\<close>

definition notifyStopped :: "sessionPlayer \<Rightarrow> sessionPlayer" where
  "notifyStopped p =
     (if stopOnce p then p
      else p\<lparr>stopOnce := True, stopC_closes := Suc (stopC_closes p)\<rparr>)"

section \<open>Pacing\<close>

text \<open>
  \<open>timestampFrame\<close>: nothing when the size query fails; otherwise save the cursor, move
  it to row 0 and column \<open>width - len(message)\<close>, write the message, and restore the cursor
  (the deferred \<open>esc(restoreCursor)\<close>).
\<close>

definition timestampFrame :: "(int \<times> int) option \<Rightarrow> string \<Rightarrow> action list" where
  "timestampFrame trm message =
     (case trm of
        None \<Rightarrow> []
      | Some (width, height) \<Rightarrow>
          [Write (ESC # ''7''),
           Write (ESC # ''['' @ sprint_d 0 @ '';'' @ sprint_d (width - int (length message)) @ ''f''),
           Write message,
           Write (ESC # ''8'')])"

text \<open>
  \<open>applyDelay\<close> takes the player, the value behind the pointer \<open>previousTimestamp\<close> and
  the event; it returns the player after the overlay and the sleep, and the new value
  behind the pointer. The \<open>switch\<close> has no default: a delay that matches no case is left
  as it is.
\<close>

definition applyDelay :: "sessionPlayer \<Rightarrow> int \<Rightarrow> event \<Rightarrow> sessionPlayer \<times> int" where
  "applyDelay p previousTimestamp e =
     (let eventTime = wrap64 (e_ms e * Millisecond);
          delay = wrap64 (eventTime - previousTimestamp);
          delay' =
            (if delay < 10 * Millisecond then 0
             else if delay > 250 * Millisecond \<and> delay < 500 * Millisecond then 250 * Millisecond
             else if delay > 500 * Millisecond \<and> delay < 1 * Second then 500 * Millisecond
             else if delay > Second then Second
             else delay)
      in (p\<lparr>out := out p @ timestampFrame (termSize p) (e_time e) @ [Sleep delay']\<rparr>, eventTime))"

text \<open>The raw timestamp and the raw delay as \<open>applyDelay\<close> computes them, for stating
  what it does.\<close>

definition eventTime :: "event \<Rightarrow> int" where
  "eventTime e = wrap64 (e_ms e * Millisecond)"

definition rawDelay :: "int \<Rightarrow> event \<Rightarrow> int" where
  "rawDelay previousTimestamp e = wrap64 (eventTime e - previousTimestamp)"

text \<open>The duration \<open>applyDelay\<close> hands to \<open>p.clock.Sleep\<close>: its last action.\<close>

definition slept :: "sessionPlayer \<Rightarrow> int \<Rightarrow> event \<Rightarrow> action" where
  "slept p previousTimestamp e = last (out (fst (applyDelay p previousTimestamp e)))"

section \<open>The playback loop\<close>

text \<open>
  The body of the loop of \<open>playRange\<close> for the index \<open>i\<close>, after the stop check: the
  \<open>switch\<close> on the event type. It returns the player and the value of \<open>prev\<close> after the
  iteration. The two \<open>continue\<close> branches leave \<open>position\<close> alone. The slice expression
  \<open>p.stream[offset : offset+bytes]\<close> panics unless \<open>0 <= offset <= offset+bytes <= cap\<close>;
  the capacity of the buffer is taken to be its length.
\<close>

definition playEvent :: "int \<Rightarrow> nat \<Rightarrow> int \<Rightarrow> sessionPlayer \<Rightarrow> error + (sessionPlayer \<times> int)" where
  "playEvent from i prev p =
     (let e = sessionEvents p ! i in
      if e_type e = SessionPrintEvent then
        (let (p1, prev1) = (if int i \<ge> from then applyDelay p prev e else (p, prev));
             offset = e_offset e;
             high = wrap64 (e_offset e + e_bytes e)
         in if 0 \<le> offset \<and> offset \<le> high \<and> high \<le> int (length (stream p1))
            then Inr (p1\<lparr>out := out p1 @ [Write (take (nat (high - offset)) (drop (nat offset) (stream p1)))],
                          position := int i\<rparr>, prev1)
            else Inl SliceBoundsOutOfRange)
      else if e_type e = ResizeEvent \<or> e_type e = SessionStartEvent then
        (let parts = Split (e_size e) CHR '':'' in
         if length parts \<noteq> 2 then Inr (p, prev)
         else (let width = parts ! 0; height = parts ! 1
               in Inr (p\<lparr>out := out p @ [Write (ESC # ''[8;'' @ height @ '';'' @ width @ ''t'')],
                            position := int i\<rparr>, prev)))
      else Inr (p, prev))"

text \<open>
  The loop \<open>for i = 0; i < to; i++\<close> of the playback goroutine, from index \<open>i\<close> on.
  \<open>p.stopRequested()\<close> reads the state under the lock; a controller running concurrently
  may have set it to \<open>stateStopping\<close> in the meantime. \<open>ctl i\<close> tells whether it has done
  so when the loop makes its stop check at index \<open>i\<close>. The result is \<open>(True, i, p)\<close> when
  the goroutine returns from inside the loop and \<open>(False, i, p)\<close> when the loop ends, with
  the final value of \<open>i\<close>.
\<close>

function playLoop :: "(nat \<Rightarrow> bool) \<Rightarrow> int \<Rightarrow> int \<Rightarrow> nat \<Rightarrow> int \<Rightarrow> sessionPlayer
    \<Rightarrow> error + (bool \<times> nat \<times> sessionPlayer)" where
  "playLoop ctl from to i prev p =
     (if int i < to then
        (let p0 = (if ctl i then setState stateStopping p else p) in
         if state p0 = stateStopping then Inr (True, i, p0)
         else if length (sessionEvents p0) \<le> i then Inl IndexOutOfRange
         else (case playEvent from i prev p0 of
                 Inl err \<Rightarrow> Inl err
               | Inr (p1, prev1) \<Rightarrow> playLoop ctl from to (Suc i) prev1 p1))
      else Inr (False, i, p))"
  by pat_completeness auto
termination
  by (relation "measure (\<lambda>(ctl, from, to, i, prev, p). nat (to - int i))") auto

text \<open>
  The playback goroutine launched by \<open>playRange\<close>. Deferred calls run last in, first
  out: when the loop has ended with \<open>i == len(p.sessionEvents)\<close>, \<open>notifyStopped\<close> runs
  before the deferred update of the state. The goroutine takes the mutex only for the
  length of a state access, so it runs while no caller holds the mutex.
\<close>

definition goroutine :: "(nat \<Rightarrow> bool) \<Rightarrow> int \<Rightarrow> int \<Rightarrow> sessionPlayer \<Rightarrow> error + sessionPlayer" where
  "goroutine ctl from to p =
     (case playLoop ctl from to 0 0 (setState statePlaying p) of
        Inl err \<Rightarrow> Inl err
      | Inr (returned, i, p1) \<Rightarrow>
          if returned then Inr (setState stateStopped p1)
          else if i = length (sessionEvents p1) then Inr (setState stateStopped (notifyStopped p1))
          else Inr (setState stateStopped p1))"

text \<open>
  \<open>playRange\<close>, up to the \<open>go\<close> statement. It returns the player and the goroutine it
  has launched, if any, as the pair of \<open>from\<close> and the stop bound. \<open>p.Lock()\<close> on a
  \<open>sync.Mutex\<close> that the calling goroutine holds itself never returns, as the mutex is
  not reentrant and nobody else unlocks it: \<open>Deadlock\<close>.
\<close>

type_synonym task = "int \<times> int"

definition playRange :: "sessionPlayer \<Rightarrow> int \<Rightarrow> int \<Rightarrow> error + (sessionPlayer \<times> task option)" where
  "playRange p from to =
     (if to > int (length (sessionEvents p)) \<or> from < 0 then
        (if locked p then Inl Deadlock
         else Inr (setState stateStopped p, None))
      else
        (let to' = (if to = 0 then int (length (sessionEvents p)) else to)
         in Inr (p\<lparr>out := out p @ [Write (ESC # ''c'')]\<rparr>, Some (from, to'))))"

definition Play :: "sessionPlayer \<Rightarrow> error + (sessionPlayer \<times> task option)" where
  "Play p = playRange p 0 0"

text \<open>A request followed by the whole run of the goroutine it launched, if it launched one.\<close>

definition run :: "(nat \<Rightarrow> bool) \<Rightarrow> error + (sessionPlayer \<times> task option) \<Rightarrow> error + sessionPlayer" where
  "run ctl r =
     (case r of
        Inl err \<Rightarrow> Inl err
      | Inr (p, None) \<Rightarrow> Inr p
      | Inr (p, Some (from, to)) \<Rightarrow> goroutine ctl from to p)"

section \<open>The operations that wait\<close>

text \<open>
  \<open>Rewind\<close>, \<open>Forward\<close> and \<open>TogglePause\<close> hold the mutex from their first statement to
  their return, except while they are parked in \<open>p.cond.Wait()\<close> inside \<open>waitUntil\<close>. A
  call either has returned (with the goroutine it launched, if any), or is parked waiting
  for a state with the rest of its body still to run, or hangs for ever in \<open>p.Lock()\<close>.
\<close>

datatype cont = Cont_return | Cont_Rewind | Cont_Forward

datatype call =
    Returned sessionPlayer "task option"
  | Parked pstate cont sessionPlayer "task option"
  | Hung

text \<open>The end of a locked operation after its call of \<open>playRange\<close>: the deferred
  \<open>p.Unlock()\<close>.\<close>

definition unlock_return :: "error + (sessionPlayer \<times> task option) \<Rightarrow> call" where
  "unlock_return r =
     (case r of
        Inl err \<Rightarrow> Hung
      | Inr (p, t) \<Rightarrow> Returned (p\<lparr>locked := False\<rparr>) t)"

text \<open>The statements of \<open>Rewind\<close> and of \<open>Forward\<close> after the stop-and-wait.\<close>

definition Rewind_rest :: "sessionPlayer \<Rightarrow> call" where
  "Rewind_rest p =
     (if position p > 0 then unlock_return (playRange p (position p - 1) (position p))
      else Returned (p\<lparr>locked := False\<rparr>) None)"

definition Forward_rest :: "sessionPlayer \<Rightarrow> call" where
  "Forward_rest p =
     (if position p < int (length (sessionEvents p))
      then unlock_return (playRange p (position p + 2) (position p + 2))
      else Returned (p\<lparr>locked := False\<rparr>) None)"

definition resume :: "cont \<Rightarrow> sessionPlayer \<Rightarrow> task option \<Rightarrow> call" where
  "resume k p t =
     (case k of
        Cont_return \<Rightarrow> Returned (p\<lparr>locked := False\<rparr>) t
      | Cont_Rewind \<Rightarrow> Rewind_rest p
      | Cont_Forward \<Rightarrow> Forward_rest p)"

text \<open>
  \<open>waitUntil\<close>: \<open>for state != p.state { p.cond.Wait() }\<close>, called with the mutex held.
  \<open>Wait\<close> releases the mutex and parks the caller; \<open>wake\<close> is the caller coming back from
  \<open>Wait\<close> after a broadcast, with the mutex taken again, when the player has become \<open>p'\<close>:
  it makes the test of the loop again.
\<close>

definition waitUntil :: "pstate \<Rightarrow> cont \<Rightarrow> sessionPlayer \<Rightarrow> task option \<Rightarrow> call" where
  "waitUntil target k p t =
     (if target \<noteq> state p then Parked target k (p\<lparr>locked := False\<rparr>) t
      else resume k p t)"

definition wake :: "call \<Rightarrow> sessionPlayer \<Rightarrow> call" where
  "wake c p' =
     (case c of
        Parked target k p t \<Rightarrow> waitUntil target k (p'\<lparr>locked := True\<rparr>) t
      | Returned p t \<Rightarrow> Returned p t
      | Hung \<Rightarrow> Hung)"

definition Rewind :: "sessionPlayer \<Rightarrow> call" where
  "Rewind p =
     (if locked p then Hung
      else (let p1 = p\<lparr>locked := True\<rparr> in
            if state p1 \<noteq> stateStopped
            then waitUntil stateStopped Cont_Rewind (setState stateStopping p1) None
            else Rewind_rest p1))"

definition Forward :: "sessionPlayer \<Rightarrow> call" where
  "Forward p =
     (if locked p then Hung
      else (let p1 = p\<lparr>locked := True\<rparr> in
            if state p1 \<noteq> stateStopped
            then waitUntil stateStopped Cont_Forward (setState stateStopping p1) None
            else Forward_rest p1))"

definition TogglePause :: "sessionPlayer \<Rightarrow> call" where
  "TogglePause p =
     (if locked p then Hung
      else (let p1 = p\<lparr>locked := True\<rparr> in
            if state p1 = statePlaying
            then waitUntil stateStopped Cont_return (setState stateStopping p1) None
            else (case playRange p1 (position p1 + 1) 0 of
                    Inl err \<Rightarrow> Hung
                  | Inr (p2, t) \<Rightarrow> waitUntil statePlaying Cont_return p2 t)))"

definition Stopped :: "sessionPlayer \<Rightarrow> bool" where
  "Stopped p = (state p = stateStopped)"

section \<open>Vocabulary of the statements\<close>

text \<open>
  The \<open>switch\<close> of \<open>applyDelay\<close> on its own, as a function of the raw delay
  (\<open>slept_smooth\<close> below: it is what \<open>applyDelay\<close> sleeps).
\<close>

definition smooth :: "int \<Rightarrow> int" where
  "smooth d = (if d < 10 * Millisecond then 0
            else if d > 250 * Millisecond \<and> d < 500 * Millisecond then 250 * Millisecond
            else if d > 500 * Millisecond \<and> d < 1 * Second then 500 * Millisecond
            else if d > Second then Second
            else d)"

text \<open>
  The slice expression \<open>p.stream[offset : offset+bytes]\<close> of a print event does not
  panic. A print event is playable when it is sliceable; every other event is.
\<close>

definition sliceable :: "string \<Rightarrow> event \<Rightarrow> bool" where
  "sliceable strm e =
     (0 \<le> e_offset e \<and> e_offset e \<le> wrap64 (e_offset e + e_bytes e) \<and>
      wrap64 (e_offset e + e_bytes e) \<le> int (length strm))"

definition playable :: "string \<Rightarrow> event \<Rightarrow> bool" where
  "playable strm e = (if e_type e = SessionPrintEvent then sliceable strm e else True)"

text \<open>
  The events the loop plays to the end of its body, where it sets \<open>p.position = i\<close>:
  print events, and resize and session start events whose size splits in two at the colon.
  \<open>rendering\<close> is what the loop writes for the event itself, the delay apart.
\<close>

definition renders :: "event \<Rightarrow> bool" where
  "renders e =
     (if e_type e = SessionPrintEvent then True
      else if e_type e = ResizeEvent \<or> e_type e = SessionStartEvent
      then length (Split (e_size e) CHR '':'') = 2
      else False)"

definition rendering :: "string \<Rightarrow> event \<Rightarrow> action list" where
  "rendering strm e =
     (if e_type e = SessionPrintEvent
      then [Write (take (nat (wrap64 (e_offset e + e_bytes e) - e_offset e)) (drop (nat (e_offset e)) strm))]
      else if (e_type e = ResizeEvent \<or> e_type e = SessionStartEvent) \<and> length (Split (e_size e) CHR '':'') = 2
      then [Write (ESC # ''[8;'' @ Split (e_size e) CHR '':'' ! 1 @ '';'' @ Split (e_size e) CHR '':'' ! 0 @ ''t'')]
      else [])"

text \<open>
  The value of \<open>prev\<close> when a loop that paces from \<open>from\<close> reaches index \<open>i\<close> without
  having been stopped: the raw timestamp of the last print event at an index in
  \<open>[from, i)\<close>, and 0 when there is none.
\<close>

fun prevTime :: "event list \<Rightarrow> int \<Rightarrow> nat \<Rightarrow> int" where
  "prevTime evs from 0 = 0"
| "prevTime evs from (Suc i) =
     (if from \<le> int i \<and> e_type (evs ! i) = SessionPrintEvent then eventTime (evs ! i)
      else prevTime evs from i)"

text \<open>
  The paced delay of the event at index \<open>i\<close> in a run that paces from \<open>from\<close>: what
  \<open>applyDelay\<close> does for a print event (the timestamp overlay, then the sleep for the
  smoothed delay since \<open>prevTime\<close>). Only print events carry a delay. \<open>played\<close> is the whole
  contribution of index \<open>i\<close> to the trace: the delay once \<open>i\<close> has reached \<open>from\<close>, then the
  rendering.
\<close>

definition pacing :: "(int \<times> int) option \<Rightarrow> event list \<Rightarrow> int \<Rightarrow> nat \<Rightarrow> action list" where
  "pacing trm evs from i =
     (if e_type (evs ! i) = SessionPrintEvent
      then timestampFrame trm (e_time (evs ! i)) @
           [Sleep (smooth (rawDelay (prevTime evs from i) (evs ! i)))]
      else [])"

definition played :: "sessionPlayer \<Rightarrow> int \<Rightarrow> nat \<Rightarrow> action list" where
  "played p from i =
     (if from \<le> int i then pacing (termSize p) (sessionEvents p) from i else []) @
     rendering (stream p) (sessionEvents p ! i)"

text \<open>
  The position after the loop has run through the indices below \<open>n\<close>, starting with
  position \<open>d\<close>: the largest index below \<open>n\<close> of an event that renders, and \<open>d\<close> when
  there is none.
\<close>

fun lastRendered :: "event list \<Rightarrow> nat \<Rightarrow> int \<Rightarrow> int" where
  "lastRendered evs 0 d = d"
| "lastRendered evs (Suc j) d = (if renders (evs ! j) then int j else lastRendered evs j d)"

text \<open>
  What the loop never touches.
\<close>

definition same_setup :: "sessionPlayer \<Rightarrow> sessionPlayer \<Rightarrow> bool" where
  "same_setup p' p =
     (stopOnce p' = stopOnce p \<and> stopC_closes p' = stopC_closes p \<and>
      sessionEvents p' = sessionEvents p \<and> stream p' = stream p \<and> termSize p' = termSize p \<and>
      locked p' = locked p)"

text \<open>
  A lifetime of the player as far as the completion signal goes: a sequence of requests
  \<open>playRange(from, to)\<close>, each with the run of the goroutine it launches under the
  stop requests \<open>ctl\<close>. Every goroutine of the player is launched by \<open>playRange\<close>, and
  only a goroutine calls \<open>notifyStopped\<close>.
\<close>

fun plays :: "((nat \<Rightarrow> bool) \<times> int \<times> int) list \<Rightarrow> sessionPlayer \<Rightarrow> error + sessionPlayer" where
  "plays [] p = Inr p"
| "plays ((ctl, from, to) # rs) p =
     (case run ctl (playRange p from to) of
        Inl err \<Rightarrow> Inl err
      | Inr p' \<Rightarrow> plays rs p')"

text \<open>
  The \<open>sync.Once\<close> and the channel agree: \<open>stopC\<close> has been closed once when the
  \<open>Once\<close> is done and never when it is not.
\<close>

definition once_inv :: "sessionPlayer \<Rightarrow> bool" where
  "once_inv p = (stopC_closes p = (if stopOnce p then 1 else 0))"

text \<open>
  The position is \<open>-1\<close> or the index of an event (\<open>plays_pos_inv\<close>: it holds all along
  a lifetime that starts with \<open>newSessionPlayer\<close>).
\<close>

definition pos_inv :: "sessionPlayer \<Rightarrow> bool" where
  "pos_inv p = (position p = - 1 \<or> (0 \<le> position p \<and> position p < int (length (sessionEvents p))))"

text \<open>
  Whether the caller is still parked in \<open>waitUntil\<close>, and the goroutine a call has
  launched.
\<close>

definition parked :: "call \<Rightarrow> bool" where
  "parked c = (case c of Parked target k p t \<Rightarrow> True | Returned p t \<Rightarrow> False | Hung \<Rightarrow> False)"

definition launched :: "call \<Rightarrow> task option" where
  "launched c = (case c of Parked target k p t \<Rightarrow> t | Returned p t \<Rightarrow> t | Hung \<Rightarrow> None)"

text \<open>
  The environments of a run: no stop request at all, and a stop request seen at the check
  of index \<open>k\<close>.
\<close>

definition never :: "nat \<Rightarrow> bool" where
  "never i = False"

definition stop_at :: "nat \<Rightarrow> nat \<Rightarrow> bool" where
  "stop_at k i = (i = k)"

section \<open>Recorded sessions used as examples\<close>

text \<open>
  A print event at \<open>m\<close> milliseconds for the bytes \<open>[off, off + len)\<close> of the stream, a
  resize event, and an event of another type (such as the end of the session).
\<close>

definition print_event :: "int \<Rightarrow> int \<Rightarrow> int \<Rightarrow> event" where
  "print_event m off len =
     \<lparr> e_type = SessionPrintEvent, e_ms = m, e_offset = off, e_bytes = len, e_size = [], e_time = ''12:00'' \<rparr>"

definition resize_event :: "string \<Rightarrow> event" where
  "resize_event sz =
     \<lparr> e_type = ResizeEvent, e_ms = 0, e_offset = 0, e_bytes = 0, e_size = sz, e_time = [] \<rparr>"

definition other_event :: event where
  "other_event =
     \<lparr> e_type = OtherEvent, e_ms = 400, e_offset = 0, e_bytes = 0, e_size = [], e_time = [] \<rparr>"

text \<open>
  The three print events at 100, 200 and 300 ms of \<open>TestPlayPause\<close>, and the player the
  test builds from them (empty stream, no terminal size).
\<close>

definition test_events :: "event list" where
  "test_events = [print_event 100 0 0, print_event 200 0 0, print_event 300 0 0]"

definition demo :: sessionPlayer where
  "demo = newSessionPlayer test_events [] None"

text \<open>
  A session with a resize, two prints and a closing event of another type, on a terminal
  80 columns wide.
\<close>

definition recorded :: sessionPlayer where
  "recorded =
     newSessionPlayer [resize_event ''80:25'', print_event 100 0 2, print_event 900 2 1, other_event]
       ''abc'' (Some (80, 25))"

text \<open>
  The player \<open>demo\<close> while its first run is under way, after the first event; after
  \<open>Play\<close> has run to the end; and the player after \<open>Play\<close> has run to the end of a
  stream that starts with an event of another type.
\<close>

definition playing :: sessionPlayer where
  "playing = demo\<lparr>state := statePlaying, position := 0,
                  out := [Write (ESC # ''c''), Sleep (100 * Millisecond), Write []]\<rparr>"

definition finished :: sessionPlayer where
  "finished =
     demo\<lparr>position := 2, stopC_closes := 1, stopOnce := True,
          out := [Write (ESC # ''c''), Sleep (100 * Millisecond), Write [],
                  Sleep (100 * Millisecond), Write [], Sleep (100 * Millisecond), Write []]\<rparr>"

definition joined :: sessionPlayer where
  "joined =
     \<lparr> locked = False, state = stateStopped, position = 1,
       sessionEvents = [other_event, print_event 100 0 0], stream = [], termSize = None,
       stopC_closes = 1, stopOnce = True,
       out = [Write (ESC # ''c''), Sleep (100 * Millisecond), Write []] \<rparr>"

text \<open>
  The player \<open>finished\<close> after \<open>TogglePause\<close> has cleared the screen, and after the
  goroutine it launched has run to its end.
\<close>

definition resumed :: sessionPlayer where
  "resumed = finished\<lparr>out := out finished @ [Write (ESC # ''c'')]\<rparr>"

definition replayed :: sessionPlayer where
  "replayed = resumed\<lparr>out := out resumed @ [Write [], Write [], Write []]\<rparr>"

section \<open>The example sessions, field by field\<close>

lemma demo_fields:
  "\<not> locked demo" "state demo = stateStopped" "position demo = - 1"
  "sessionEvents demo = test_events" "stream demo = []" "termSize demo = None"
  "\<not> stopOnce demo" "stopC_closes demo = 0" "out demo = []"
  by (simp_all add: demo_def newSessionPlayer_def)

lemma playing_fields:
  "\<not> locked playing" "state playing = statePlaying" "position playing = 0"
  "sessionEvents playing = test_events"
  by (simp_all add: playing_def demo_fields)

lemma finished_fields:
  "\<not> locked finished" "state finished = stateStopped" "position finished = 2"
  "sessionEvents finished = test_events" "stream finished = []" "termSize finished = None"
  "stopOnce finished" "stopC_closes finished = 1"
  by (simp_all add: finished_def demo_fields)

lemma test_events_length: "length test_events = 3"
  by (simp add: test_events_def)

lemma test_events_playable: "\<forall>j<3. playable [] (test_events ! j)"
  by (simp add: test_events_def playable_def sliceable_def print_event_def wrap64_def
      less_Suc_eq numeral_3_eq_3)

lemma test_events_renders: "renders (test_events ! 0)" "renders (test_events ! 1)"
  by (simp_all add: test_events_def renders_def print_event_def)

section \<open>The delay policy of applyDelay\<close>

lemma slept_eq:
  "slept p prev e =
     Sleep (let d = rawDelay prev e in
            if d < 10 * Millisecond then 0
            else if d > 250 * Millisecond \<and> d < 500 * Millisecond then 250 * Millisecond
            else if d > 500 * Millisecond \<and> d < 1 * Second then 500 * Millisecond
            else if d > Second then Second
            else d)"
  by (simp add: slept_def applyDelay_def rawDelay_def eventTime_def Let_def)

lemma applyDelay_prev: "snd (applyDelay p prev e) = eventTime e"
  by (simp add: applyDelay_def eventTime_def Let_def)

lemma applyDelay_out:
  "out (fst (applyDelay p prev e)) = out p @ timestampFrame (termSize p) (e_time e) @ [slept p prev e]"
  by (simp add: slept_def applyDelay_def Let_def)

lemma slept_smooth: "slept p prev e = Sleep (smooth (rawDelay prev e))"
  by (simp add: slept_eq smooth_def Let_def)

lemma smooth_row1: "d < 10 * Millisecond \<Longrightarrow> smooth d = 0"
  unfolding smooth_def Millisecond_def Second_def by simp

lemma smooth_row2: "10 * Millisecond \<le> d \<Longrightarrow> d \<le> 250 * Millisecond \<Longrightarrow> smooth d = d"
  unfolding smooth_def Millisecond_def Second_def by simp

lemma smooth_row3: "250 * Millisecond < d \<Longrightarrow> d < 500 * Millisecond \<Longrightarrow> smooth d = 250 * Millisecond"
  unfolding smooth_def Millisecond_def Second_def by simp

lemma smooth_row4: "500 * Millisecond < d \<Longrightarrow> d < 1000 * Millisecond \<Longrightarrow> smooth d = 500 * Millisecond"
  unfolding smooth_def Millisecond_def Second_def by simp

lemma smooth_row5: "1000 * Millisecond \<le> d \<Longrightarrow> smooth d = 1000 * Millisecond"
  unfolding smooth_def Millisecond_def Second_def by simp

lemma smooth_mid: "smooth (500 * Millisecond) = 500 * Millisecond"
  unfolding smooth_def Millisecond_def Second_def by simp

lemma smooth_nonneg: "0 \<le> smooth d"
  unfolding smooth_def Millisecond_def Second_def by simp

lemma smooth_le: "smooth d \<le> Second"
  unfolding smooth_def Millisecond_def Second_def by simp

lemma smooth_neg: "d < 0 \<Longrightarrow> smooth d = 0"
  unfolding smooth_def Millisecond_def Second_def by simp

lemma smooth_cap: "Second \<le> d \<Longrightarrow> smooth d = Second"
  unfolding smooth_def Millisecond_def Second_def by simp

text \<open>
  Claim C3. \<open>applyDelay\<close> sleeps for the raw delay \<open>d = eventTimestamp -
  previousTimestamp\<close> quantized by the table: below 10 ms it is 0; from 10 ms to 250 ms it
  is \<open>d\<close>; between 250 ms and 500 ms it is 250 ms; between 500 ms and 1000 ms it is 500 ms;
  from 1000 ms on it is 1000 ms. The sleep is the last thing it does, after the overlay, and
  the timestamp it leaves behind is the raw timestamp of the event: the raw delay of the
  next event \<open>e'\<close> is counted from there, whatever has been slept.
\<close>
theorem applyDelay_quantization_table:
  "(rawDelay prev e < 10 * Millisecond \<longrightarrow> slept p prev e = Sleep 0) \<and>
   (10 * Millisecond \<le> rawDelay prev e \<and> rawDelay prev e \<le> 250 * Millisecond
      \<longrightarrow> slept p prev e = Sleep (rawDelay prev e)) \<and>
   (250 * Millisecond < rawDelay prev e \<and> rawDelay prev e < 500 * Millisecond
      \<longrightarrow> slept p prev e = Sleep (250 * Millisecond)) \<and>
   (500 * Millisecond < rawDelay prev e \<and> rawDelay prev e < 1000 * Millisecond
      \<longrightarrow> slept p prev e = Sleep (500 * Millisecond)) \<and>
   (1000 * Millisecond \<le> rawDelay prev e \<longrightarrow> slept p prev e = Sleep (1000 * Millisecond)) \<and>
   out (fst (applyDelay p prev e)) = out p @ timestampFrame (termSize p) (e_time e) @ [slept p prev e] \<and>
   snd (applyDelay p prev e) = eventTime e \<and>
   rawDelay (snd (applyDelay p prev e)) e' = wrap64 (eventTime e' - eventTime e)"
proof -
  have "rawDelay (snd (applyDelay p prev e)) e' = wrap64 (eventTime e' - eventTime e)"
    by (simp only: applyDelay_prev rawDelay_def)
  then show ?thesis
    using smooth_row1 [of "rawDelay prev e"] smooth_row2 [of "rawDelay prev e"]
      smooth_row3 [of "rawDelay prev e"] smooth_row4 [of "rawDelay prev e"]
      smooth_row5 [of "rawDelay prev e"] applyDelay_out [of p prev e] applyDelay_prev [of p prev e]
    by (simp only: slept_smooth) blast
qed

text \<open>
  One event for each row of the table, with the previous timestamp 0, and an event 100 ms
  after one whose delay was capped.
\<close>
theorem applyDelay_quantization_table_witness:
  "slept demo 0 (print_event 5 0 0) = Sleep 0 \<and>
   slept demo 0 (print_event 100 0 0) = Sleep (100 * Millisecond) \<and>
   slept demo 0 (print_event 300 0 0) = Sleep (250 * Millisecond) \<and>
   slept demo 0 (print_event 700 0 0) = Sleep (500 * Millisecond) \<and>
   slept demo 0 (print_event 5000 0 0) = Sleep (1000 * Millisecond) \<and>
   snd (applyDelay demo 0 (print_event 5000 0 0)) = 5000 * Millisecond \<and>
   rawDelay (snd (applyDelay demo 0 (print_event 5000 0 0))) (print_event 5100 0 0) = 100 * Millisecond"
proof -
  have r: "rawDelay 0 (print_event 5 0 0) = 5 * Millisecond"
    "rawDelay 0 (print_event 100 0 0) = 100 * Millisecond"
    "rawDelay 0 (print_event 300 0 0) = 300 * Millisecond"
    "rawDelay 0 (print_event 700 0 0) = 700 * Millisecond"
    "rawDelay 0 (print_event 5000 0 0) = 5000 * Millisecond"
    "eventTime (print_event 5000 0 0) = 5000 * Millisecond"
    "wrap64 (eventTime (print_event 5100 0 0) - eventTime (print_event 5000 0 0)) = 100 * Millisecond"
    by (simp_all add: rawDelay_def eventTime_def print_event_def wrap64_def Millisecond_def)
  show ?thesis
    using applyDelay_quantization_table [of 0 "print_event 5 0 0" demo]
      applyDelay_quantization_table [of 0 "print_event 100 0 0" demo]
      applyDelay_quantization_table [of 0 "print_event 300 0 0" demo]
      applyDelay_quantization_table [of 0 "print_event 700 0 0" demo]
      applyDelay_quantization_table [of 0 "print_event 5000 0 0" demo "print_event 5100 0 0"]
    unfolding r by (simp add: Millisecond_def rawDelay_def eventTime_def print_event_def wrap64_def)
qed

text \<open>
  Claim C9. Whatever the previous timestamp and the timestamp of the event are, the
  duration \<open>applyDelay\<close> hands to \<open>Sleep\<close> lies between 0 and one second: it is 0 when the
  raw delay is negative, and one second when the raw delay is one second or more.
\<close>
theorem applyDelay_sleep_bounds:
  "\<exists>d. slept p prev e = Sleep d \<and> 0 \<le> d \<and> d \<le> Second \<and>
       (rawDelay prev e < 0 \<longrightarrow> d = 0) \<and> (Second \<le> rawDelay prev e \<longrightarrow> d = Second)"
  using smooth_nonneg [of "rawDelay prev e"] smooth_le [of "rawDelay prev e"]
    smooth_neg [of "rawDelay prev e"] smooth_cap [of "rawDelay prev e"]
  by (simp only: slept_smooth) blast

text \<open>
  An event 100 ms before the previous one, and an event a day after it.
\<close>
theorem applyDelay_sleep_bounds_witness:
  "slept demo (300 * Millisecond) (print_event 200 0 0) = Sleep 0 \<and>
   rawDelay (300 * Millisecond) (print_event 200 0 0) < 0 \<and>
   slept demo 0 (print_event 86400000 0 0) = Sleep Second \<and>
   Second \<le> rawDelay 0 (print_event 86400000 0 0)"
proof -
  have r: "rawDelay (300 * Millisecond) (print_event 200 0 0) = - 100 * Millisecond"
    "rawDelay 0 (print_event 86400000 0 0) = 86400000 * Millisecond"
    by (simp_all add: rawDelay_def eventTime_def print_event_def wrap64_def Millisecond_def)
  show ?thesis
    using applyDelay_sleep_bounds [of demo "300 * Millisecond" "print_event 200 0 0"]
      applyDelay_sleep_bounds [of demo 0 "print_event 86400000 0 0"]
    unfolding r by (auto simp: Millisecond_def Second_def)
qed

section \<open>The loop of the playback goroutine\<close>

lemma playEvent_eq:
  assumes "playable (stream p) (sessionEvents p ! i)"
  shows "playEvent from i prev p =
     Inr (p\<lparr>out := out p @
               (if from \<le> int i \<and> e_type (sessionEvents p ! i) = SessionPrintEvent
                then timestampFrame (termSize p) (e_time (sessionEvents p ! i)) @
                     [Sleep (smooth (rawDelay prev (sessionEvents p ! i)))]
                else []) @ rendering (stream p) (sessionEvents p ! i),
              position := (if renders (sessionEvents p ! i) then int i else position p)\<rparr>,
          if from \<le> int i \<and> e_type (sessionEvents p ! i) = SessionPrintEvent
          then eventTime (sessionEvents p ! i) else prev)"
proof (cases "e_type (sessionEvents p ! i) = SessionPrintEvent")
  case True
  with assms have sl: "sliceable (stream p) (sessionEvents p ! i)"
    by (simp add: playable_def)
  show ?thesis
  proof (cases "from \<le> int i")
    case g: True
    from True g sl show ?thesis
      by (simp add: playEvent_def Let_def applyDelay_def sliceable_def rendering_def renders_def
          smooth_def rawDelay_def eventTime_def)
  next
    case g: False
    from True g sl show ?thesis
      by (simp add: playEvent_def Let_def sliceable_def rendering_def renders_def)
  qed
next
  case False
  then show ?thesis
    by (simp add: playEvent_def Let_def rendering_def renders_def)
qed

lemma playEvent_played:
  assumes "playable (stream p) (sessionEvents p ! i)"
    and "prev = prevTime (sessionEvents p) from i"
  shows "playEvent from i prev p =
     Inr (p\<lparr>out := out p @ played p from i,
              position := (if renders (sessionEvents p ! i) then int i else position p)\<rparr>,
          prevTime (sessionEvents p) from (Suc i))"
  using assms by (simp add: playEvent_eq played_def pacing_def)

lemma played_cong:
  "sessionEvents q = sessionEvents p \<Longrightarrow> stream q = stream p \<Longrightarrow> termSize q = termSize p
   \<Longrightarrow> played q from j = played p from j"
  by (simp add: played_def)

text \<open>
  The loop from index \<open>i\<close> on, when no stop request comes and every event is playable.
\<close>
lemma playLoop_run:
  assumes "n - i = k" "i \<le> n" "n = nat to" "n \<le> length (sessionEvents p)"
    and "state p \<noteq> stateStopping"
    and "\<forall>j. i \<le> j \<and> j < n \<longrightarrow> \<not> ctl j"
    and "\<forall>j. i \<le> j \<and> j < n \<longrightarrow> playable (stream p) (sessionEvents p ! j)"
    and "prev = prevTime (sessionEvents p) from i"
    and "position p = lastRendered (sessionEvents p) i d"
  shows "playLoop ctl from to i prev p =
     Inr (False, n, p\<lparr>out := out p @ concat (map (played p from) [i..<n]),
                          position := lastRendered (sessionEvents p) n d\<rparr>)"
  using assms
proof (induction k arbitrary: i prev p)
  case 0
  then have "i = n" by simp
  with 0 show ?case by (subst playLoop.simps) simp
next
  case (Suc k)
  then have lt: "i < n" by simp
  let ?p1 = "p\<lparr>out := out p @ played p from i,
              position := (if renders (sessionEvents p ! i) then int i else position p)\<rparr>"
  have ev: "playEvent from i prev p = Inr (?p1, prevTime (sessionEvents p) from (Suc i))"
    using Suc.prems lt by (intro playEvent_played) auto
  have ih: "playLoop ctl from to (Suc i) (prevTime (sessionEvents p) from (Suc i)) ?p1 =
     Inr (False, n, ?p1\<lparr>out := out ?p1 @ concat (map (played ?p1 from) [Suc i..<n]),
                          position := lastRendered (sessionEvents ?p1) n d\<rparr>)"
    using Suc.prems lt by (intro Suc.IH) auto
  have pl: "played ?p1 from = played p from"
    by (rule ext) (simp add: played_def)
  have "playLoop ctl from to i prev p =
      playLoop ctl from to (Suc i) (prevTime (sessionEvents p) from (Suc i)) ?p1"
    using Suc.prems lt ev by (subst playLoop.simps) (simp add: setState_def)
  also note ih
  finally show ?case
    using lt by (simp add: pl upt_conv_Cons)
qed

lemma playEvent_fields:
  assumes "playEvent from i prev p = Inr (p1, prev1)"
  shows "state p1 = state p \<and> stopOnce p1 = stopOnce p \<and> stopC_closes p1 = stopC_closes p \<and>
         sessionEvents p1 = sessionEvents p \<and> stream p1 = stream p \<and> termSize p1 = termSize p \<and>
         locked p1 = locked p \<and> (position p1 = position p \<or> position p1 = int i)"
proof (cases "e_type (sessionEvents p ! i) = SessionPrintEvent")
  case True
  with assms show ?thesis
    by (cases "from \<le> int i")
      (auto simp: playEvent_def Let_def applyDelay_def split: if_splits)
next
  case False
  with assms show ?thesis
    by (auto simp: playEvent_def Let_def split: if_splits)
qed

text \<open>
  What holds of every loop that does not panic, stopped or not.
\<close>
lemma playLoop_props:
  assumes "playLoop ctl from to i prev p = Inr (r, i', p')" and "state p \<noteq> stateStopping"
  shows "same_setup p' p \<and>
         (r \<longrightarrow> i \<le> i' \<and> int i' < to \<and> ctl i' \<and> state p' = stateStopping) \<and>
         (\<not> r \<longrightarrow> i' = max i (nat to) \<and> (\<forall>j. i \<le> j \<and> int j < to \<longrightarrow> \<not> ctl j) \<and> state p' = state p) \<and>
         (position p' = position p \<or>
            (int i \<le> position p' \<and> position p' < int i' \<and> position p' < int (length (sessionEvents p))))"
  using assms
proof (induction ctl "from" to i prev p rule: playLoop.induct)
  case (1 ctl frm to i prev p)
  show ?case
  proof (cases "int i < to")
    case False
    with "1.prems" show ?thesis
      by (subst (asm) playLoop.simps) (auto simp: same_setup_def)
  next
    case lt: True
    define p0 where "p0 = (if ctl i then setState stateStopping p else p)"
    have p0: "same_setup p0 p" "position p0 = position p"
      by (simp_all add: p0_def setState_def same_setup_def)
    show ?thesis
    proof (cases "state p0 = stateStopping")
      case True
      with "1.prems" have c: "ctl i" by (auto simp: p0_def split: if_splits)
      from True "1.prems" lt have "r = True \<and> i' = i \<and> p' = p0"
        by (subst (asm) playLoop.simps) (auto simp: p0_def Let_def)
      with True c lt p0 show ?thesis by simp
    next
      case ns: False
      then have nc: "\<not> ctl i" by (auto simp: p0_def setState_def split: if_splits)
      then have pp: "p0 = p" by (simp add: p0_def)
      show ?thesis
      proof (cases "length (sessionEvents p0) \<le> i")
        case True
        with "1.prems" lt ns show ?thesis
          by (subst (asm) playLoop.simps) (simp add: p0_def Let_def)
      next
        case inb: False
        show ?thesis
        proof (cases "playEvent frm i prev p0")
          case (Inl err)
          with "1.prems" lt ns inb show ?thesis
            by (subst (asm) playLoop.simps) (simp add: p0_def Let_def)
        next
          case (Inr pr)
          obtain p1 prev1 where pr: "pr = (p1, prev1)" by (cases pr)
          from Inr pr have ev: "playEvent frm i prev p0 = Inr (p1, prev1)" by simp
          note f = playEvent_fields [OF ev]
          have rec: "playLoop ctl frm to (Suc i) prev1 p1 = Inr (r, i', p')"
            using "1.prems" lt ns inb ev
            by (subst (asm) playLoop.simps) (simp add: p0_def Let_def)
          have ns1: "state p1 \<noteq> stateStopping" using f ns by simp
          note ih = "1.IH" [OF lt p0_def ns inb ev refl rec ns1]
          have s: "same_setup p' p"
            using ih f pp by (simp add: same_setup_def)
          have a: "r \<longrightarrow> i \<le> i' \<and> int i' < to \<and> ctl i' \<and> state p' = stateStopping"
            using ih by auto
          have b: "\<not> r \<longrightarrow> i' = max i (nat to) \<and> (\<forall>j. i \<le> j \<and> int j < to \<longrightarrow> \<not> ctl j) \<and> state p' = state p"
          proof
            assume "\<not> r"
            with ih have i': "i' = max (Suc i) (nat to)"
              and nc': "\<forall>j. Suc i \<le> j \<and> int j < to \<longrightarrow> \<not> ctl j"
              and st: "state p' = state p1" by auto
            from i' lt have "i' = max i (nat to)" by auto
            moreover have "\<forall>j. i \<le> j \<and> int j < to \<longrightarrow> \<not> ctl j"
            proof (intro allI impI)
              fix j assume j: "i \<le> j \<and> int j < to"
              show "\<not> ctl j"
              proof (cases "j = i")
                case True with nc show ?thesis by simp
              next
                case False with j nc' show ?thesis by auto
              qed
            qed
            moreover have "state p' = state p" using st f pp by simp
            ultimately show "i' = max i (nat to) \<and> (\<forall>j. i \<le> j \<and> int j < to \<longrightarrow> \<not> ctl j) \<and> state p' = state p"
              by simp
          qed
          have i'_ge: "Suc i \<le> i'"
            using ih lt by (cases r) auto
          have len: "sessionEvents p1 = sessionEvents p" using f pp by simp
          have c: "position p' = position p \<or>
            (int i \<le> position p' \<and> position p' < int i' \<and> position p' < int (length (sessionEvents p)))"
            using ih f pp inb i'_ge len by auto
          from s a b c show ?thesis by blast
        qed
      qed
    qed
  qed
qed

section \<open>Requests and the runs they launch\<close>

lemma playRange_valid:
  assumes "0 \<le> from" "to \<le> int (length (sessionEvents p))"
  shows "playRange p from to =
     Inr (p\<lparr>out := out p @ [Write (ESC # ''c'')]\<rparr>,
          Some (from, if to = 0 then int (length (sessionEvents p)) else to))"
  using assms by (simp add: playRange_def Let_def)

lemma playRange_invalid:
  assumes "from < 0 \<or> int (length (sessionEvents p)) < to"
  shows "playRange p from to = (if locked p then Inl Deadlock else Inr (setState stateStopped p, None))"
  using assms by (auto simp: playRange_def)

lemma goroutine_props:
  assumes "goroutine ctl from to p = Inr p'"
  shows "state p' = stateStopped \<and>
         sessionEvents p' = sessionEvents p \<and> stream p' = stream p \<and> termSize p' = termSize p \<and>
         locked p' = locked p \<and>
         stopOnce p' = (stopOnce p \<or> ((\<forall>j. int j < to \<longrightarrow> \<not> ctl j) \<and> nat to = length (sessionEvents p))) \<and>
         stopC_closes p' =
           (if \<not> stopOnce p \<and> (\<forall>j. int j < to \<longrightarrow> \<not> ctl j) \<and> nat to = length (sessionEvents p)
            then Suc (stopC_closes p) else stopC_closes p) \<and>
         (position p' = position p \<or>
            (0 \<le> position p' \<and> position p' < to \<and> position p' < int (length (sessionEvents p))))"
proof (cases "playLoop ctl from to 0 0 (setState statePlaying p)")
  case (Inl err)
  with assms show ?thesis by (simp add: goroutine_def)
next
  case (Inr res)
  obtain r i' p1 where res: "res = (r, i', p1)" by (cases res)
  from Inr res have lp: "playLoop ctl from to 0 0 (setState statePlaying p) = Inr (r, i', p1)"
    by simp
  have ns: "state (setState statePlaying p) \<noteq> stateStopping" by (simp add: setState_def)
  note pr = playLoop_props [OF lp ns]
  from pr have su: "same_setup p1 p" by (simp add: same_setup_def setState_def)
  from pr have r_iff: "(\<not> r) = (\<forall>j. int j < to \<longrightarrow> \<not> ctl j)" by auto
  from pr have i': "\<not> r \<Longrightarrow> i' = nat to" by simp
  from pr have bound: "int i' \<le> to \<or> i' = 0" by (cases r) auto
  have pos: "position p1 = position p \<or>
            (0 \<le> position p1 \<and> position p1 < to \<and> position p1 < int (length (sessionEvents p)))"
    using pr bound by (auto simp: setState_def)
  show ?thesis
  proof (cases r)
    case True
    with assms lp have "p' = setState stateStopped p1" by (simp add: goroutine_def)
    with su pos True r_iff show ?thesis
      by (auto simp: setState_def same_setup_def)
  next
    case False
    show ?thesis
    proof (cases "i' = length (sessionEvents p1)")
      case eq: True
      with assms lp False have "p' = setState stateStopped (notifyStopped p1)"
        by (simp add: goroutine_def)
      with su pos False r_iff i' eq show ?thesis
        by (auto simp: setState_def same_setup_def notifyStopped_def)
    next
      case ne: False
      with assms lp False have "p' = setState stateStopped p1"
        by (simp add: goroutine_def)
      with su pos False r_iff i' ne show ?thesis
        by (auto simp: setState_def same_setup_def)
    qed
  qed
qed

lemma goroutine_uninterrupted:
  assumes n: "n = nat to" "n \<le> length (sessionEvents p)"
    and nc: "\<forall>j<n. \<not> ctl j"
    and ok: "\<forall>j<n. playable (stream p) (sessionEvents p ! j)"
  shows "\<exists>p'. goroutine ctl from to p = Inr p' \<and>
           out p' = out p @ concat (map (played p from) [0..<n]) \<and>
           position p' = lastRendered (sessionEvents p) n (position p)"
proof -
  let ?q = "setState statePlaying p"
  have "playLoop ctl from to 0 (prevTime (sessionEvents ?q) from 0) ?q =
     Inr (False, n, ?q\<lparr>out := out ?q @ concat (map (played ?q from) [0..<n]),
                          position := lastRendered (sessionEvents ?q) n (position p)\<rparr>)"
    using n nc ok by (intro playLoop_run [where k = n]) (auto simp: setState_def)
  moreover have "played ?q from = played p from"
    by (rule ext) (simp add: played_def setState_def)
  ultimately have "playLoop ctl from to 0 0 ?q =
     Inr (False, n, ?q\<lparr>out := out p @ concat (map (played p from) [0..<n]),
                          position := lastRendered (sessionEvents p) n (position p)\<rparr>)"
    by (simp add: setState_def)
  then show ?thesis
    by (simp add: goroutine_def setState_def notifyStopped_def)
qed

lemma run_playRange_valid:
  assumes "0 \<le> from" "to \<le> int (length (sessionEvents p))"
  shows "run ctl (playRange p from to) =
     goroutine ctl from (if to = 0 then int (length (sessionEvents p)) else to)
       (p\<lparr>out := out p @ [Write (ESC # ''c'')]\<rparr>)"
  using assms by (simp add: playRange_valid run_def)

lemma run_playRange_invalid:
  assumes "from < 0 \<or> int (length (sessionEvents p)) < to"
  shows "run ctl (playRange p from to) = (if locked p then Inl Deadlock else Inr (setState stateStopped p))"
  using assms by (simp add: playRange_invalid run_def)

lemma run_once_inv:
  assumes "run ctl (playRange p from to) = Inr p'" and "once_inv p"
  shows "once_inv p'"
proof (cases "from < 0 \<or> int (length (sessionEvents p)) < to")
  case True
  with assms show ?thesis
    by (auto simp: run_playRange_invalid once_inv_def setState_def split: if_splits)
next
  case False
  then have v: "0 \<le> from" "to \<le> int (length (sessionEvents p))" by auto
  let ?q = "p\<lparr>out := out p @ [Write (ESC # ''c'')]\<rparr>"
  from assms(1) have "goroutine ctl from (if to = 0 then int (length (sessionEvents p)) else to) ?q = Inr p'"
    by (simp add: run_playRange_valid [OF v])
  from goroutine_props [OF this] assms(2) show ?thesis
    by (auto simp: once_inv_def split: if_splits)
qed

lemma plays_once_inv:
  "plays rs p = Inr p' \<Longrightarrow> once_inv p \<Longrightarrow> once_inv p'"
proof (induction rs arbitrary: p)
  case Nil
  then show ?case by simp
next
  case (Cons a rs)
  obtain ctl frm to where a: "a = (ctl, frm, to)" by (cases a)
  show ?case
  proof (cases "run ctl (playRange p frm to)")
    case (Inl err)
    with Cons.prems a show ?thesis by simp
  next
    case (Inr q)
    with Cons.prems a have "plays rs q = Inr p'" by simp
    moreover have "once_inv q" using run_once_inv [OF Inr Cons.prems(2)] .
    ultimately show ?thesis by (rule Cons.IH)
  qed
qed

section \<open>The position after a run\<close>

lemma lastRendered_last:
  "0 < n \<Longrightarrow> renders (evs ! (n - 1)) \<Longrightarrow> lastRendered evs n d = int n - 1"
  by (cases n) simp_all

lemma lastRendered_none:
  "\<forall>j<n. \<not> renders (evs ! j) \<Longrightarrow> lastRendered evs n d = d"
  by (induction n) simp_all

lemma lastRendered_some:
  "j < n \<Longrightarrow> renders (evs ! j) \<Longrightarrow> int j \<le> lastRendered evs n d \<and> lastRendered evs n d < int n"
proof (induction n)
  case 0
  then show ?case by simp
next
  case (Suc n)
  show ?case
  proof (cases "renders (evs ! n)")
    case True
    with Suc.prems show ?thesis by simp
  next
    case False
    with Suc.prems have "j < n" by (cases "j = n") auto
    with Suc False show ?thesis by simp
  qed
qed

lemma lastRendered_cases:
  "(lastRendered evs n d = d \<and> (\<forall>j<n. \<not> renders (evs ! j))) \<or>
   (\<exists>j<n. lastRendered evs n d = int j \<and> renders (evs ! j) \<and> (\<forall>k. j < k \<and> k < n \<longrightarrow> \<not> renders (evs ! k)))"
proof (induction n)
  case 0
  then show ?case by simp
next
  case (Suc n)
  show ?case
  proof (cases "renders (evs ! n)")
    case True
    then show ?thesis by auto
  next
    case False
    from Suc show ?thesis
    proof
      assume "lastRendered evs n d = d \<and> (\<forall>j<n. \<not> renders (evs ! j))"
      with False show ?thesis by (auto simp: less_Suc_eq)
    next
      assume "\<exists>j<n. lastRendered evs n d = int j \<and> renders (evs ! j) \<and> (\<forall>k. j < k \<and> k < n \<longrightarrow> \<not> renders (evs ! k))"
      then obtain j where j: "j < n" "lastRendered evs n d = int j" "renders (evs ! j)"
        "\<forall>k. j < k \<and> k < n \<longrightarrow> \<not> renders (evs ! k)" by blast
      with False have "j < Suc n \<and> lastRendered evs (Suc n) d = int j \<and> renders (evs ! j) \<and>
          (\<forall>k. j < k \<and> k < Suc n \<longrightarrow> \<not> renders (evs ! k))"
        by (auto simp: less_Suc_eq)
      then show ?thesis by blast
    qed
  qed
qed

section \<open>Replaying from the first event\<close>

text \<open>
  Claim C1. A request \<open>playRange(from, to)\<close> within range, whose run is not stopped and
  whose print events lie within the stream, clears the screen and then plays the events
  from index 0, whatever \<open>from\<close> is: the trace is the concatenation, over the indices
  \<open>0, ..., n - 1\<close> in order, of the paced delay of the event (only once the index has
  reached \<open>from\<close>; before that nothing stands between two renderings) followed by its
  rendering. \<open>to\<close> is the exclusive bound \<open>n\<close> of the loop, and \<open>to = 0\<close> stands for the
  length of the stream. The paced delay is \<open>pacing\<close>: the overlay and the sleep of
  \<open>applyDelay\<close> for a print event, nothing for the other events.
\<close>
theorem playRange_replays_from_start:
  assumes "0 \<le> from" and "to \<le> int (length (sessionEvents p))"
    and "n = (if to = 0 then length (sessionEvents p) else nat to)"
    and "\<forall>j<n. \<not> ctl j"
    and "\<forall>j<n. playable (stream p) (sessionEvents p ! j)"
  shows "\<exists>p'. run ctl (playRange p from to) = Inr p' \<and>
           out p' = out p @ Write (ESC # ''c'') #
             concat (map (\<lambda>i. (if from \<le> int i then pacing (termSize p) (sessionEvents p) from i else []) @
                              rendering (stream p) (sessionEvents p ! i)) [0..<n])"
proof -
  let ?q = "p\<lparr>out := out p @ [Write (ESC # ''c'')]\<rparr>"
  let ?to = "if to = 0 then int (length (sessionEvents p)) else to"
  have n: "n = nat ?to" "n \<le> length (sessionEvents ?q)"
    using assms(2,3) by auto
  have "\<exists>p'. goroutine ctl from ?to ?q = Inr p' \<and>
           out p' = out ?q @ concat (map (played ?q from) [0..<n]) \<and>
           position p' = lastRendered (sessionEvents ?q) n (position ?q)"
    using n assms(4,5) by (intro goroutine_uninterrupted) auto
  then obtain p' where g: "goroutine ctl from ?to ?q = Inr p'"
    and o: "out p' = out ?q @ concat (map (played ?q from) [0..<n])" by blast
  have pl: "played ?q from = (\<lambda>i. (if from \<le> int i then pacing (termSize p) (sessionEvents p) from i else []) @
                              rendering (stream p) (sessionEvents p ! i))"
    by (rule ext) (simp add: played_def)
  have r: "run ctl (playRange p from to) = Inr p'"
    unfolding run_playRange_valid [OF assms(1,2)] by (rule g)
  from o have "out p' = out p @ Write (ESC # ''c'') #
             concat (map (\<lambda>i. (if from \<le> int i then pacing (termSize p) (sessionEvents p) from i else []) @
                              rendering (stream p) (sessionEvents p ! i)) [0..<n])"
    unfolding pl by simp
  with r show ?thesis by blast
qed

text \<open>
  The theorem at the session \<open>recorded\<close>, paced from index 2 to the end: the resize and
  the first print are written back to back, the second print comes after the overlay and
  a sleep of 500 ms, and the closing event writes nothing.
\<close>
theorem playRange_replays_from_start_witness:
  "\<exists>p'. run never (playRange recorded 2 0) = Inr p' \<and>
        out p' = [Write (ESC # ''c''), Write (ESC # ''[8;25;80t''), Write ''ab'',
                  Write (ESC # ''7''), Write (ESC # ''[0;75f''), Write ''12:00'', Write (ESC # ''8''),
                  Sleep (500 * Millisecond), Write ''c'']"
proof -
  have h1: "(0::int) \<le> 2" and h2: "0 \<le> int (length (sessionEvents recorded))"
    and h3: "4 = (if (0::int) = 0 then length (sessionEvents recorded) else nat 0)"
    by (simp_all add: recorded_def newSessionPlayer_def)
  have h4: "\<forall>j<4. \<not> never j" by (simp add: never_def)
  have h5: "\<forall>j<4. playable (stream recorded) (sessionEvents recorded ! j)"
    by (simp add: recorded_def newSessionPlayer_def playable_def sliceable_def
        print_event_def resize_event_def other_event_def wrap64_def less_Suc_eq eval_nat_numeral)
  have e: "out recorded @ Write (ESC # ''c'') #
             concat (map (\<lambda>i. (if 2 \<le> int i
                               then pacing (termSize recorded) (sessionEvents recorded) 2 i else []) @
                              rendering (stream recorded) (sessionEvents recorded ! i)) [0..<4]) =
           [Write (ESC # ''c''), Write (ESC # ''[8;25;80t''), Write ''ab'',
            Write (ESC # ''7''), Write (ESC # ''[0;75f''), Write ''12:00'', Write (ESC # ''8''),
            Sleep (500 * Millisecond), Write ''c'']"
    by code_simp
  show ?thesis
    using playRange_replays_from_start [OF h1 h2 h3 h4 h5] unfolding e .
qed

section \<open>The completion signal\<close>

text \<open>
  Claim C4. Along any sequence of requests and runs that starts with a new player, \<open>stopC\<close>
  is closed at most once. A run of the goroutine closes it only when no stop request has
  interrupted the loop and the loop index has reached the length of the stream; a run
  that is interrupted, or whose stop bound is below the length of the stream, leaves it
  alone; and the first run that goes through the whole stream closes it.
\<close>
theorem stopC_closed_at_most_once:
  "(plays rs (newSessionPlayer evs strm trm) = Inr p1 \<longrightarrow> stopC_closes p1 \<le> 1) \<and>
   (goroutine ctl from to p = Inr p' \<longrightarrow>
      (stopC_closes p' \<noteq> stopC_closes p \<longrightarrow>
         (\<forall>j. int j < to \<longrightarrow> \<not> ctl j) \<and> nat to = length (sessionEvents p)) \<and>
      ((\<exists>j. int j < to \<and> ctl j) \<longrightarrow> stopC_closes p' = stopC_closes p) \<and>
      (0 \<le> to \<and> to < int (length (sessionEvents p)) \<longrightarrow> stopC_closes p' = stopC_closes p) \<and>
      (\<not> stopOnce p \<and> (\<forall>j. int j < to \<longrightarrow> \<not> ctl j) \<and> nat to = length (sessionEvents p)
         \<longrightarrow> stopC_closes p' = Suc (stopC_closes p)))"
proof (intro conjI impI)
  assume "plays rs (newSessionPlayer evs strm trm) = Inr p1"
  moreover have "once_inv (newSessionPlayer evs strm trm)"
    by (simp add: once_inv_def newSessionPlayer_def)
  ultimately have "once_inv p1" by (rule plays_once_inv)
  then show "stopC_closes p1 \<le> 1" by (simp add: once_inv_def split: if_splits)
next
  assume g: "goroutine ctl from to p = Inr p'"
  note pr = goroutine_props [OF g]
  { assume "stopC_closes p' \<noteq> stopC_closes p"
    with pr show "\<forall>j. int j < to \<longrightarrow> \<not> ctl j" by (auto split: if_splits)
    from \<open>stopC_closes p' \<noteq> stopC_closes p\<close> pr show "nat to = length (sessionEvents p)"
      by (auto split: if_splits) }
  { assume "\<exists>j. int j < to \<and> ctl j"
    with pr show "stopC_closes p' = stopC_closes p" by (auto split: if_splits) }
  { assume "0 \<le> to \<and> to < int (length (sessionEvents p))"
    then have "nat to \<noteq> length (sessionEvents p)" by auto
    with pr show "stopC_closes p' = stopC_closes p" by (auto split: if_splits) }
  { assume "\<not> stopOnce p \<and> (\<forall>j. int j < to \<longrightarrow> \<not> ctl j) \<and> nat to = length (sessionEvents p)"
    with pr show "stopC_closes p' = Suc (stopC_closes p)" by (auto split: if_splits) }
qed

text \<open>
  Three runs of \<open>demo\<close> in a row (to the end, stopped at index 1, to the end again paced
  from 1) close \<open>stopC\<close> once; one run to the end closes it; a run stopped at index 2 and a
  run with the stop bound 2 do not.
\<close>
theorem stopC_closed_at_most_once_witness:
  "stopC_closes (projr (plays [(never, 0, 0), (stop_at 1, 0, 0), (never, 1, 0)]
       (newSessionPlayer test_events [] None))) \<le> 1 \<and>
   stopC_closes (projr (goroutine never 0 3 demo)) = Suc (stopC_closes demo) \<and>
   stopC_closes (projr (goroutine (stop_at 2) 0 3 demo)) = stopC_closes demo \<and>
   stopC_closes (projr (goroutine never 0 2 demo)) = stopC_closes demo"
proof -
  let ?rs = "[(never, 0, 0), (stop_at 1, 0, 0), (never, 1, 0)]"
  have "\<not> isl (plays ?rs (newSessionPlayer test_events [] None))"
    "\<not> isl (goroutine never 0 3 demo)" "\<not> isl (goroutine (stop_at 2) 0 3 demo)"
    "\<not> isl (goroutine never 0 2 demo)"
    by code_simp+
  then have b: "plays ?rs (newSessionPlayer test_events [] None) =
        Inr (projr (plays ?rs (newSessionPlayer test_events [] None)))"
    "goroutine never 0 3 demo = Inr (projr (goroutine never 0 3 demo))"
    "goroutine (stop_at 2) 0 3 demo = Inr (projr (goroutine (stop_at 2) 0 3 demo))"
    "goroutine never 0 2 demo = Inr (projr (goroutine never 0 2 demo))"
    by simp_all
  have c: "\<not> stopOnce demo" "nat 3 = length (sessionEvents demo)"
    "0 \<le> (2::int) \<and> 2 < int (length (sessionEvents demo))"
    by (simp_all add: demo_def newSessionPlayer_def test_events_def)
  have d: "\<exists>j. int j < 3 \<and> stop_at 2 j" "\<forall>j. int j < 3 \<longrightarrow> \<not> never j"
    by (simp_all add: stop_at_def never_def)
  have 0: "stopC_closes (projr (plays ?rs (newSessionPlayer test_events [] None))) \<le> 1"
    using stopC_closed_at_most_once [of ?rs test_events "[]" None
        "projr (plays ?rs (newSessionPlayer test_events [] None))" never 0 3 demo
        "projr (goroutine never 0 3 demo)"] b(1)
    by blast
  have 1: "stopC_closes (projr (goroutine never 0 3 demo)) = Suc (stopC_closes demo)"
    using stopC_closed_at_most_once [of "[]" test_events "[]" None demo never 0 3 demo
        "projr (goroutine never 0 3 demo)"] b(2) c(1,2) d(2)
    by blast
  have 2: "stopC_closes (projr (goroutine (stop_at 2) 0 3 demo)) = stopC_closes demo"
    using stopC_closed_at_most_once [of "[]" test_events "[]" None demo "stop_at 2" 0 3 demo
        "projr (goroutine (stop_at 2) 0 3 demo)"] b(3) d(1)
    by blast
  have 3: "stopC_closes (projr (goroutine never 0 2 demo)) = stopC_closes demo"
    using stopC_closed_at_most_once [of "[]" test_events "[]" None demo never 0 2 demo
        "projr (goroutine never 0 2 demo)"] b(4) c(3)
    by blast
  from 0 1 2 3 show ?thesis by blast
qed

section \<open>Play to the end of the stream\<close>

text \<open>
  Claim C5 fails as it is stated: \<open>Play\<close> of a print event followed by an event of another
  type runs to the end and closes \<open>stopC\<close>, and the position is 0, not \<open>len - 1 = 1\<close>.
\<close>
theorem Play_position_counterexample:
  "run never (Play (newSessionPlayer [print_event 100 0 0, other_event] [] None)) =
     Inr \<lparr> locked = False, state = stateStopped, position = 0,
           sessionEvents = [print_event 100 0 0, other_event], stream = [], termSize = None,
           stopC_closes = 1, stopOnce = True,
           out = [Write (ESC # ''c''), Sleep (100 * Millisecond), Write []] \<rparr> \<and>
   int (length [print_event 100 0 0, other_event]) - 1 = 1"
  by code_simp

text \<open>
  Claim C5, amended. When \<open>Play\<close> runs to the end of a non-empty stream without a stop
  request (its print events within the stream), the state is Stopped, \<open>stopC\<close> has been
  closed exactly once, and the position is the index of the last event that renders: it
  is \<open>len - 1\<close> when the last event of the stream renders, and the position is left as it
  was when no event does.
\<close>
theorem Play_runs_to_completion:
  assumes "sessionEvents p \<noteq> []"
    and "\<forall>j<length (sessionEvents p). \<not> ctl j"
    and "\<forall>j<length (sessionEvents p). playable (stream p) (sessionEvents p ! j)"
    and "once_inv p"
  shows "\<exists>p'. run ctl (Play p) = Inr p' \<and> state p' = stateStopped \<and> stopC_closes p' = 1 \<and>
           position p' = lastRendered (sessionEvents p) (length (sessionEvents p)) (position p) \<and>
           (renders (last (sessionEvents p)) \<longrightarrow> position p' = int (length (sessionEvents p)) - 1) \<and>
           ((\<forall>j<length (sessionEvents p). \<not> renders (sessionEvents p ! j)) \<longrightarrow> position p' = position p)"
proof -
  let ?n = "length (sessionEvents p)"
  let ?q = "p\<lparr>out := out p @ [Write (ESC # ''c'')]\<rparr>"
  have r: "run ctl (Play p) = goroutine ctl 0 (int ?n) ?q"
    using run_playRange_valid [of 0 0 p ctl] by (simp add: Play_def)
  have "\<exists>p'. goroutine ctl 0 (int ?n) ?q = Inr p' \<and>
           out p' = out ?q @ concat (map (played ?q 0) [0..<?n]) \<and>
           position p' = lastRendered (sessionEvents ?q) ?n (position ?q)"
    using assms(2,3) by (intro goroutine_uninterrupted) auto
  then obtain p' where g: "goroutine ctl 0 (int ?n) ?q = Inr p'"
    and pos: "position p' = lastRendered (sessionEvents p) ?n (position p)" by auto
  note pr = goroutine_props [OF g]
  have nc: "\<forall>j. int j < int ?n \<longrightarrow> \<not> ctl j" using assms(2) by simp
  from pr nc assms(4) have cl: "stopC_closes p' = 1"
    by (auto simp: once_inv_def split: if_splits)
  have l: "renders (last (sessionEvents p)) \<longrightarrow> position p' = int ?n - 1"
    using assms(1) pos lastRendered_last [of ?n "sessionEvents p" "position p"]
    by (simp add: last_conv_nth)
  have e: "(\<forall>j<?n. \<not> renders (sessionEvents p ! j)) \<longrightarrow> position p' = position p"
    using pos lastRendered_none [of ?n "sessionEvents p" "position p"] by simp
  from r g pr cl pos l e show ?thesis by simp
qed

theorem Play_runs_to_completion_witness:
  "\<exists>p'. run never (Play demo) = Inr p' \<and> state p' = stateStopped \<and> stopC_closes p' = 1 \<and>
        position p' = 2 \<and> renders (last (sessionEvents demo)) \<and> int (length (sessionEvents demo)) - 1 = 2"
proof -
  have h: "sessionEvents demo \<noteq> []" "\<forall>j<length (sessionEvents demo). \<not> never j"
    "\<forall>j<length (sessionEvents demo). playable (stream demo) (sessionEvents demo ! j)"
    "once_inv demo"
    by (simp_all add: demo_def newSessionPlayer_def test_events_def never_def once_inv_def
        playable_def sliceable_def print_event_def wrap64_def less_Suc_eq numeral_3_eq_3)
  have e: "renders (last (sessionEvents demo))" "int (length (sessionEvents demo)) - 1 = 2"
    by (simp_all add: demo_def newSessionPlayer_def test_events_def renders_def print_event_def)
  from Play_runs_to_completion [OF h] e show ?thesis by auto
qed

section \<open>Stop-and-wait: TogglePause, Rewind and Forward\<close>

lemma parked_simps:
  "parked (Parked target k p t)" "\<not> parked (Returned p t)" "\<not> parked Hung"
  by (simp_all add: parked_def)

lemma unlock_return_not_parked: "\<not> parked (unlock_return r)"
  by (simp add: unlock_return_def parked_simps split: sum.splits prod.splits)

lemma resume_not_parked: "\<not> parked (resume k p t)"
  by (cases k) (simp_all add: resume_def Rewind_rest_def Forward_rest_def unlock_return_not_parked parked_simps)

lemma wake_Parked:
  "wake (Parked target k c t) q =
     (if state q = target then resume k (q\<lparr>locked := True\<rparr>) t
      else Parked target k (q\<lparr>locked := False\<rparr>) t)"
  by (simp add: wake_def waitUntil_def)

lemma wake_not_parked: "\<not> parked c \<Longrightarrow> wake c q = c"
  by (cases c) (simp_all add: wake_def parked_def)

lemma foldl_wake_not_parked: "\<not> parked c \<Longrightarrow> foldl wake c qs = c"
  by (induction qs) (simp_all add: wake_not_parked)

lemma foldl_wake_Parked:
  "parked (foldl wake (Parked target k c t) qs) = (\<forall>q\<in>set qs. state q \<noteq> target)"
proof (induction qs arbitrary: c)
  case Nil
  show ?case by (simp add: parked_simps)
next
  case (Cons q qs)
  show ?case
  proof (cases "state q = target")
    case True
    then have "foldl wake (Parked target k c t) (q # qs) = resume k (q\<lparr>locked := True\<rparr>) t"
      by (simp add: wake_Parked foldl_wake_not_parked resume_not_parked)
    with True show ?thesis by (simp add: resume_not_parked)
  next
    case False
    then show ?thesis by (simp add: wake_Parked Cons.IH)
  qed
qed

lemma Rewind_rest_launched:
  assumes "locked q"
  shows "launched (Rewind_rest q) =
     (if 0 < position q \<and> position q \<le> int (length (sessionEvents q))
      then Some (position q - 1, position q) else None)"
  using assms
  by (auto simp: Rewind_rest_def unlock_return_def playRange_def launched_def Let_def)

lemma Forward_rest_launched:
  assumes "locked q" and "- 1 \<le> position q"
  shows "launched (Forward_rest q) =
     (if position q + 2 \<le> int (length (sessionEvents q))
      then Some (position q + 2, position q + 2) else None)"
  using assms
  by (auto simp: Forward_rest_def unlock_return_def playRange_def launched_def Let_def)

lemma run_pos_inv:
  assumes "run ctl (playRange p from to) = Inr p'" and "pos_inv p"
  shows "pos_inv p'"
proof (cases "from < 0 \<or> int (length (sessionEvents p)) < to")
  case True
  with assms show ?thesis
    by (auto simp: run_playRange_invalid pos_inv_def setState_def split: if_splits)
next
  case False
  then have v: "0 \<le> from" "to \<le> int (length (sessionEvents p))" by auto
  let ?q = "p\<lparr>out := out p @ [Write (ESC # ''c'')]\<rparr>"
  from assms(1) have "goroutine ctl from (if to = 0 then int (length (sessionEvents p)) else to) ?q = Inr p'"
    by (simp add: run_playRange_valid [OF v])
  from goroutine_props [OF this] assms(2) show ?thesis
    by (auto simp: pos_inv_def)
qed

lemma plays_pos_inv:
  "plays rs p = Inr p' \<Longrightarrow> pos_inv p \<Longrightarrow> pos_inv p'"
proof (induction rs arbitrary: p)
  case Nil
  then show ?case by simp
next
  case (Cons a rs)
  obtain ctl frm to where a: "a = (ctl, frm, to)" by (cases a)
  show ?case
  proof (cases "run ctl (playRange p frm to)")
    case (Inl err)
    with Cons.prems a show ?thesis by simp
  next
    case (Inr q)
    with Cons.prems a have "plays rs q = Inr p'" by simp
    moreover have "pos_inv q" using run_pos_inv [OF Inr Cons.prems(2)] .
    ultimately show ?thesis by (rule Cons.IH)
  qed
qed

lemma TogglePause_pauses:
  assumes "\<not> locked p" and "state p = statePlaying"
  shows "TogglePause p =
      Parked stateStopped Cont_return (p\<lparr>state := stateStopping, locked := False\<rparr>) None"
  using assms by (simp add: TogglePause_def Let_def waitUntil_def setState_def)

lemma TogglePause_resumes:
  assumes "\<not> locked p" and "- 1 \<le> position p" and "state p \<noteq> statePlaying"
  shows "TogglePause p =
      Parked statePlaying Cont_return (p\<lparr>out := out p @ [Write (ESC # ''c'')], locked := False\<rparr>)
        (Some (position p + 1, int (length (sessionEvents p))))"
proof -
  have v: "playRange (p\<lparr>locked := True\<rparr>) (position p + 1) 0 =
      Inr (p\<lparr>locked := True, out := out p @ [Write (ESC # ''c'')]\<rparr>,
           Some (position p + 1, int (length (sessionEvents p))))"
    using assms(2) by (simp add: playRange_def Let_def)
  from assms show ?thesis
    by (simp add: TogglePause_def Let_def v waitUntil_def)
qed

text \<open>
  \<open>TogglePause\<close> up to its wait. Called while the state is Playing, it sets the state to
  Stopping and parks the caller; however often the caller is woken, it stays parked as
  long as the state it finds is not Stopped, and it returns when it is. Called in any
  other state, it clears the screen, launches a goroutine that paces from
  \<open>position + 1\<close> and stops at the end of the stream, and parks the caller; the caller
  returns at a wake-up that finds the state Playing, and at no other.
\<close>
lemma TogglePause_waits:
  assumes "\<not> locked p" and "- 1 \<le> position p"
  shows "(state p = statePlaying \<longrightarrow>
            TogglePause p = Parked stateStopped Cont_return (p\<lparr>state := stateStopping, locked := False\<rparr>) None \<and>
            parked (foldl wake (TogglePause p) qs) = (\<forall>q\<in>set qs. state q \<noteq> stateStopped) \<and>
            (state q = stateStopped \<longrightarrow> wake (TogglePause p) q = Returned (q\<lparr>locked := False\<rparr>) None)) \<and>
         (state p \<noteq> statePlaying \<longrightarrow>
            TogglePause p =
              Parked statePlaying Cont_return (p\<lparr>out := out p @ [Write (ESC # ''c'')], locked := False\<rparr>)
                (Some (position p + 1, int (length (sessionEvents p)))) \<and>
            parked (foldl wake (TogglePause p) qs) = (\<forall>q\<in>set qs. state q \<noteq> statePlaying) \<and>
            (state q = statePlaying \<longrightarrow>
               wake (TogglePause p) q =
                 Returned (q\<lparr>locked := False\<rparr>) (Some (position p + 1, int (length (sessionEvents p))))))"
proof (intro conjI impI)
  assume pl: "state p = statePlaying"
  show 1: "TogglePause p =
      Parked stateStopped Cont_return (p\<lparr>state := stateStopping, locked := False\<rparr>) None"
    using assms(1) pl by (rule TogglePause_pauses)
  show "parked (foldl wake (TogglePause p) qs) = (\<forall>q\<in>set qs. state q \<noteq> stateStopped)"
    unfolding 1 by (rule foldl_wake_Parked)
  assume "state q = stateStopped"
  then show "wake (TogglePause p) q = Returned (q\<lparr>locked := False\<rparr>) None"
    unfolding 1 by (simp add: wake_Parked resume_def)
next
  assume np: "state p \<noteq> statePlaying"
  show 2: "TogglePause p =
      Parked statePlaying Cont_return (p\<lparr>out := out p @ [Write (ESC # ''c'')], locked := False\<rparr>)
        (Some (position p + 1, int (length (sessionEvents p))))"
    using assms np by (rule TogglePause_resumes)
  show "parked (foldl wake (TogglePause p) qs) = (\<forall>q\<in>set qs. state q \<noteq> statePlaying)"
    unfolding 2 by (rule foldl_wake_Parked)
  assume "state q = statePlaying"
  then show "wake (TogglePause p) q =
      Returned (q\<lparr>locked := False\<rparr>) (Some (position p + 1, int (length (sessionEvents p))))"
    unfolding 2 by (simp add: wake_Parked resume_def)
qed

text \<open>
  The pause returns: every run of the goroutine ends with the state Stopped, and the
  state stays so, so the caller finds it whenever it takes the mutex again.
\<close>
lemma TogglePause_pause_returns:
  assumes "\<not> locked p" and "state p = statePlaying"
    and "goroutine ctl from to q = Inr p'"
  shows "wake (TogglePause p) p' = Returned (p'\<lparr>locked := False\<rparr>) None"
proof -
  from goroutine_props [OF assms(3)] have "state p' = stateStopped" by simp
  then show ?thesis
    unfolding TogglePause_pauses [OF assms(1,2)] by (simp add: wake_Parked resume_def)
qed

text \<open>
  The resume depends on when the caller takes the mutex again. The goroutine broadcasts
  twice, at \<open>setState(statePlaying)\<close> and at its deferred \<open>setState(stateStopped)\<close>.
  A caller that takes the mutex while the goroutine is still in its loop finds Playing
  and returns. A caller that takes it only after the goroutine has ended finds Stopped
  at every wake-up, and after the end of the goroutine nothing broadcasts again.
\<close>
lemma TogglePause_resume_in_time:
  assumes "\<not> locked p" and "- 1 \<le> position p" and "state p \<noteq> statePlaying"
  shows "wake (TogglePause p) (setState statePlaying q) =
     Returned (q\<lparr>state := statePlaying, locked := False\<rparr>)
       (Some (position p + 1, int (length (sessionEvents p))))"
  unfolding TogglePause_resumes [OF assms]
  by (simp add: wake_Parked resume_def setState_def)

lemma TogglePause_resume_too_late:
  assumes "\<not> locked p" and "- 1 \<le> position p" and "state p \<noteq> statePlaying"
    and "goroutine ctl from to q = Inr p'"
  shows "parked (foldl wake (TogglePause p) (replicate n p'))"
proof -
  from goroutine_props [OF assms(4)] have "state p' = stateStopped" by simp
  then have "\<forall>q\<in>set (replicate n p'). state q \<noteq> statePlaying" by simp
  then show ?thesis
    unfolding TogglePause_resumes [OF assms(1,2,3)] foldl_wake_Parked .
qed

text \<open>
  Claim C6. The pause does what the claim says (\<open>TogglePause_waits\<close>,
  \<open>TogglePause_pause_returns\<close>). The resume launches the goroutine for
  \<open>[position + 1, end)\<close> and waits for Playing, a state that does not last: here the
  claim fails on the code. At the player that \<open>Play\<close> of \<open>demo\<close> leaves behind,
  \<open>TogglePause\<close> launches a goroutine that sleeps nowhere and ends with the state Stopped;
  the caller that takes the mutex again after that end is parked at both wake-ups of the
  run, still waiting for Playing, and no broadcast follows: the call never returns.
\<close>
theorem TogglePause_resume_never_returns:
  "run never (Play demo) = Inr finished \<and>
   TogglePause finished = Parked statePlaying Cont_return resumed (Some (3, 3)) \<and>
   goroutine never 3 3 resumed = Inr replayed \<and>
   state replayed = stateStopped \<and>
   wake (TogglePause finished) replayed = Parked statePlaying Cont_return replayed (Some (3, 3)) \<and>
   foldl wake (TogglePause finished) [replayed, replayed] =
     Parked statePlaying Cont_return replayed (Some (3, 3))"
  by code_simp

lemma Rewind_parks:
  assumes "\<not> locked p" and "state p \<noteq> stateStopped"
  shows "Rewind p = Parked stateStopped Cont_Rewind (p\<lparr>state := stateStopping, locked := False\<rparr>) None"
  using assms by (simp add: Rewind_def Let_def waitUntil_def setState_def)

lemma Forward_parks:
  assumes "\<not> locked p" and "state p \<noteq> stateStopped"
  shows "Forward p = Parked stateStopped Cont_Forward (p\<lparr>state := stateStopping, locked := False\<rparr>) None"
  using assms by (simp add: Forward_def Let_def waitUntil_def setState_def)

lemma Rewind_rest_valid:
  assumes "0 < position q" and "position q \<le> int (length (sessionEvents q))"
  shows "Rewind_rest (q\<lparr>locked := True\<rparr>) =
     Returned (q\<lparr>out := out q @ [Write (ESC # ''c'')], locked := False\<rparr>)
       (Some (position q - 1, position q))"
  using assms by (simp add: Rewind_rest_def unlock_return_def playRange_def Let_def)

lemma Forward_rest_valid:
  assumes "- 1 \<le> position q" and "position q + 2 \<le> int (length (sessionEvents q))"
  shows "Forward_rest (q\<lparr>locked := True\<rparr>) =
     Returned (q\<lparr>out := out q @ [Write (ESC # ''c'')], locked := False\<rparr>)
       (Some (position q + 2, position q + 2))"
  using assms by (simp add: Forward_rest_def unlock_return_def playRange_def Let_def)

lemma goroutine_replay:
  assumes n: "0 \<le> to" "to \<le> int (length (sessionEvents q))"
    and nc: "\<forall>j<nat to. \<not> ctl j"
    and ok: "\<forall>j<nat to. playable (stream q) (sessionEvents q ! j)"
  shows "\<exists>q'. goroutine ctl from to q = Inr q' \<and> state q' = stateStopped \<and>
           out q' = out q @
             concat (map (\<lambda>i. (if from \<le> int i then pacing (termSize q) (sessionEvents q) from i else []) @
                              rendering (stream q) (sessionEvents q ! i)) [0..<nat to]) \<and>
           position q' = lastRendered (sessionEvents q) (nat to) (position q)"
proof -
  have "\<exists>q'. goroutine ctl from to q = Inr q' \<and>
           out q' = out q @ concat (map (played q from) [0..<nat to]) \<and>
           position q' = lastRendered (sessionEvents q) (nat to) (position q)"
    using n nc ok by (intro goroutine_uninterrupted) auto
  then obtain q' where g: "goroutine ctl from to q = Inr q'"
    and o: "out q' = out q @ concat (map (played q from) [0..<nat to])"
    and p: "position q' = lastRendered (sessionEvents q) (nat to) (position q)" by blast
  have pl: "played q from = (\<lambda>i. (if from \<le> int i then pacing (termSize q) (sessionEvents q) from i else []) @
                              rendering (stream q) (sessionEvents q ! i))"
    by (rule ext) (simp add: played_def)
  from goroutine_props [OF g] have s: "state q' = stateStopped" by simp
  from g s o p show ?thesis unfolding pl by blast
qed

lemma replay_position:
  assumes "0 < P"
  shows "((\<exists>j<nat P. renders (evs ! j)) \<longrightarrow> lastRendered evs (nat P) P \<le> P - 1) \<and>
         ((\<forall>j<nat P. \<not> renders (evs ! j)) \<longrightarrow> lastRendered evs (nat P) P = P)"
proof (intro conjI impI)
  assume "\<exists>j<nat P. renders (evs ! j)"
  then obtain j where "j < nat P" "renders (evs ! j)" by blast
  from lastRendered_some [OF this, of P] assms show "lastRendered evs (nat P) P \<le> P - 1" by simp
next
  assume "\<forall>j<nat P. \<not> renders (evs ! j)"
  then show "lastRendered evs (nat P) P = P" by (rule lastRendered_none)
qed

text \<open>
  Claim C7 fails as it is stated: after \<open>Play\<close> of an event of another type followed by
  a print event the position is 1; \<open>Rewind\<close> launches the replay of the range
  \<open>[0, 1]\<close>, which renders nothing, and the position is still 1 when it completes.
\<close>
theorem Rewind_counterexample:
  "run never (Play (newSessionPlayer [other_event, print_event 100 0 0] [] None)) = Inr joined \<and>
   position joined = 1 \<and>
   Rewind joined = Returned (joined\<lparr>out := out joined @ [Write (ESC # ''c'')]\<rparr>) (Some (0, 1)) \<and>
   goroutine never 0 1 (joined\<lparr>out := out joined @ [Write (ESC # ''c'')]\<rparr>) =
     Inr (joined\<lparr>out := out joined @ [Write (ESC # ''c'')]\<rparr>) \<and>
   position (joined\<lparr>out := out joined @ [Write (ESC # ''c'')]\<rparr>) = 1"
  by code_simp

text \<open>
  Claim C7, amended. \<open>Rewind\<close>, when the state is not Stopped, sets it to Stopping and
  parks the caller until a wake-up finds the state Stopped; then (or at once when the
  state is Stopped) the rest of its body runs. The rest launches a goroutine if and only
  if the position is positive, with the pacing start \<open>position - 1\<close> and the stop bound
  \<open>position\<close> (the position never exceeds the length of the stream). When that replay
  runs to its end without a stop request, the events below \<open>position - 1\<close> are written with
  no delay, pacing applies from \<open>position - 1\<close>, and the new position is the index of the
  last event below the old position that renders: it has decreased by at least one when
  there is such an event, and it is the old position when there is none.
\<close>
theorem Rewind_protocol:
  assumes "\<not> locked p"
  shows "(state p \<noteq> stateStopped \<longrightarrow>
            Rewind p = Parked stateStopped Cont_Rewind (p\<lparr>state := stateStopping, locked := False\<rparr>) None \<and>
            parked (foldl wake (Rewind p) qs) = (\<forall>q\<in>set qs. state q \<noteq> stateStopped) \<and>
            (state q = stateStopped \<longrightarrow> wake (Rewind p) q = Rewind_rest (q\<lparr>locked := True\<rparr>))) \<and>
         (state p = stateStopped \<longrightarrow> Rewind p = Rewind_rest (p\<lparr>locked := True\<rparr>)) \<and>
         (position q \<le> int (length (sessionEvents q)) \<longrightarrow>
            launched (Rewind_rest (q\<lparr>locked := True\<rparr>)) =
              (if 0 < position q then Some (position q - 1, position q) else None)) \<and>
         (0 < position q \<and> position q \<le> int (length (sessionEvents q)) \<and>
          (\<forall>j<nat (position q). \<not> ctl j \<and> playable (stream q) (sessionEvents q ! j)) \<longrightarrow>
            (\<exists>q'. Rewind_rest (q\<lparr>locked := True\<rparr>) =
                     Returned (q\<lparr>out := out q @ [Write (ESC # ''c'')], locked := False\<rparr>)
                       (Some (position q - 1, position q)) \<and>
                   goroutine ctl (position q - 1) (position q)
                     (q\<lparr>out := out q @ [Write (ESC # ''c'')], locked := False\<rparr>) = Inr q' \<and>
                   state q' = stateStopped \<and>
                   out q' = out q @ Write (ESC # ''c'') #
                     concat (map (\<lambda>i. (if position q - 1 \<le> int i
                                       then pacing (termSize q) (sessionEvents q) (position q - 1) i else []) @
                                      rendering (stream q) (sessionEvents q ! i)) [0..<nat (position q)]) \<and>
                   position q' = lastRendered (sessionEvents q) (nat (position q)) (position q) \<and>
                   ((\<exists>j<nat (position q). renders (sessionEvents q ! j)) \<longrightarrow> position q' \<le> position q - 1) \<and>
                   ((\<forall>j<nat (position q). \<not> renders (sessionEvents q ! j)) \<longrightarrow> position q' = position q)))"
proof (intro conjI impI)
  assume ns: "state p \<noteq> stateStopped"
  show 1: "Rewind p = Parked stateStopped Cont_Rewind (p\<lparr>state := stateStopping, locked := False\<rparr>) None"
    using assms ns by (rule Rewind_parks)
  show "parked (foldl wake (Rewind p) qs) = (\<forall>q\<in>set qs. state q \<noteq> stateStopped)"
    unfolding 1 by (rule foldl_wake_Parked)
  assume "state q = stateStopped"
  then show "wake (Rewind p) q = Rewind_rest (q\<lparr>locked := True\<rparr>)"
    unfolding 1 by (simp add: wake_Parked resume_def)
next
  assume "state p = stateStopped"
  with assms show "Rewind p = Rewind_rest (p\<lparr>locked := True\<rparr>)"
    by (simp add: Rewind_def Let_def)
next
  assume "position q \<le> int (length (sessionEvents q))"
  then show "launched (Rewind_rest (q\<lparr>locked := True\<rparr>)) =
              (if 0 < position q then Some (position q - 1, position q) else None)"
    by (simp add: Rewind_rest_launched)
next
  assume a: "0 < position q \<and> position q \<le> int (length (sessionEvents q)) \<and>
          (\<forall>j<nat (position q). \<not> ctl j \<and> playable (stream q) (sessionEvents q ! j))"
  let ?r = "q\<lparr>out := out q @ [Write (ESC # ''c'')], locked := False\<rparr>"
  have rr: "Rewind_rest (q\<lparr>locked := True\<rparr>) = Returned ?r (Some (position q - 1, position q))"
    using a by (intro Rewind_rest_valid) auto
  have sel: "termSize ?r = termSize q" "sessionEvents ?r = sessionEvents q" "stream ?r = stream q"
    "position ?r = position q" "out ?r = out q @ [Write (ESC # ''c'')]"
    by simp_all
  have pre: "0 \<le> position q" "position q \<le> int (length (sessionEvents ?r))"
    "\<forall>j<nat (position q). \<not> ctl j"
    "\<forall>j<nat (position q). playable (stream ?r) (sessionEvents ?r ! j)"
    using a by auto
  note gr = goroutine_replay [OF pre, of "position q - 1"]
  from gr [unfolded sel]
  obtain q' where g: "goroutine ctl (position q - 1) (position q) ?r = Inr q'"
    and s: "state q' = stateStopped"
    and o: "out q' = out q @ Write (ESC # ''c'') #
             concat (map (\<lambda>i. (if position q - 1 \<le> int i
                               then pacing (termSize q) (sessionEvents q) (position q - 1) i else []) @
                              rendering (stream q) (sessionEvents q ! i)) [0..<nat (position q)])"
    and ps: "position q' = lastRendered (sessionEvents q) (nat (position q)) (position q)"
    by auto
  from a have "0 < position q" by simp
  note rp = replay_position [OF this, of "sessionEvents q"]
  from rr g s o ps rp
  show "\<exists>q'. Rewind_rest (q\<lparr>locked := True\<rparr>) =
                     Returned (q\<lparr>out := out q @ [Write (ESC # ''c'')], locked := False\<rparr>)
                       (Some (position q - 1, position q)) \<and>
                   goroutine ctl (position q - 1) (position q)
                     (q\<lparr>out := out q @ [Write (ESC # ''c'')], locked := False\<rparr>) = Inr q' \<and>
                   state q' = stateStopped \<and>
                   out q' = out q @ Write (ESC # ''c'') #
                     concat (map (\<lambda>i. (if position q - 1 \<le> int i
                                       then pacing (termSize q) (sessionEvents q) (position q - 1) i else []) @
                                      rendering (stream q) (sessionEvents q ! i)) [0..<nat (position q)]) \<and>
                   position q' = lastRendered (sessionEvents q) (nat (position q)) (position q) \<and>
                   ((\<exists>j<nat (position q). renders (sessionEvents q ! j)) \<longrightarrow> position q' \<le> position q - 1) \<and>
                   ((\<forall>j<nat (position q). \<not> renders (sessionEvents q ! j)) \<longrightarrow> position q' = position q)"
    by (intro exI [of _ q']) simp
qed

theorem Rewind_protocol_witness:
  "Rewind playing =
     Parked stateStopped Cont_Rewind (playing\<lparr>state := stateStopping, locked := False\<rparr>) None \<and>
   parked (foldl wake (Rewind playing) [playing\<lparr>state := stateStopping\<rparr>]) \<and>
   wake (Rewind playing) finished = Rewind_rest (finished\<lparr>locked := True\<rparr>) \<and>
   Rewind finished = Rewind_rest (finished\<lparr>locked := True\<rparr>) \<and>
   launched (Rewind_rest (finished\<lparr>locked := True\<rparr>)) = Some (1, 2) \<and>
   launched (Rewind_rest (playing\<lparr>locked := True\<rparr>)) = None \<and>
   (\<exists>q'. goroutine never 1 2 (finished\<lparr>out := out finished @ [Write (ESC # ''c'')], locked := False\<rparr>) = Inr q' \<and>
         state q' = stateStopped \<and> position q' \<le> 1)"
proof -
  have e: "position finished = 2" "position playing = 0"
    "int (length (sessionEvents finished)) = 3" "int (length (sessionEvents playing)) = 3"
    by (simp_all add: finished_fields playing_fields test_events_length)
  note t1 = Rewind_protocol [OF playing_fields(1)]
  note t2 = Rewind_protocol [OF finished_fields(1)]
  have f1: "state playing \<noteq> stateStopped" "state finished = stateStopped"
    by (simp_all add: playing_fields finished_fields)
  have f2: "\<forall>q\<in>set [playing\<lparr>state := stateStopping\<rparr>]. state q \<noteq> stateStopped"
    by simp
  have h: "0 < (2::int) \<and> (2::int) \<le> 3 \<and>
          (\<forall>j<nat 2. \<not> never j \<and> playable (stream finished) (sessionEvents finished ! j))"
    using test_events_playable
    by (simp add: finished_fields never_def)
  have r: "\<exists>j<nat 2. renders (sessionEvents finished ! j)"
    using test_events_renders(1) by (intro exI [of _ 0]) (simp add: finished_fields)
  have l: "(2::int) \<le> 3" "(0::int) \<le> 3" "(if 0 < (2::int) then Some ((2::int) - 1, (2::int)) else None) = Some (1, 2)"
    "(if 0 < (0::int) then Some ((0::int) - 1, (0::int)) else None) = None"
    by simp_all
  from t1 [of "[playing\<lparr>state := stateStopping\<rparr>]" finished never, unfolded e] f1 f2 l
  have 1: "Rewind playing =
     Parked stateStopped Cont_Rewind (playing\<lparr>state := stateStopping, locked := False\<rparr>) None"
    "parked (foldl wake (Rewind playing) [playing\<lparr>state := stateStopping\<rparr>])"
    "wake (Rewind playing) finished = Rewind_rest (finished\<lparr>locked := True\<rparr>)"
    by blast+
  from t2 [of "[]" finished never] f1
  have 2: "Rewind finished = Rewind_rest (finished\<lparr>locked := True\<rparr>)"
    by blast
  from t2 [of "[]" finished never]
  have l2: "launched (Rewind_rest (finished\<lparr>locked := True\<rparr>)) = Some (1, 2)"
    by (simp add: e)
  from t2 [of "[]" playing never]
  have 3: "launched (Rewind_rest (playing\<lparr>locked := True\<rparr>)) = None"
    by (simp add: e)
  from t2 [of "[]" finished never, unfolded e] h r
  have "\<exists>q'. goroutine never (2 - 1) 2 (finished\<lparr>out := out finished @ [Write (ESC # ''c'')], locked := False\<rparr>) = Inr q' \<and>
         state q' = stateStopped \<and> position q' \<le> 2 - 1"
    by blast
  then have 4: "\<exists>q'. goroutine never 1 2 (finished\<lparr>out := out finished @ [Write (ESC # ''c'')], locked := False\<rparr>) = Inr q' \<and>
         state q' = stateStopped \<and> position q' \<le> 1"
    by simp
  from 1 2 l2 3 4 show ?thesis by blast
qed

text \<open>
  Claim C8 fails as it is stated: after \<open>Play\<close> of \<open>demo\<close> has run to its end the position
  is 2, below the length 3 of the stream, and \<open>Forward\<close> launches no goroutine.
\<close>
theorem Forward_counterexample:
  "run never (Play demo) = Inr finished \<and>
   position finished < int (length (sessionEvents finished)) \<and>
   launched (Forward finished) = None"
  by code_simp

text \<open>
  Claim C8, amended. \<open>Forward\<close>, when the state is not Stopped, sets it to Stopping and
  parks the caller until a wake-up finds the state Stopped; then (or at once when the
  state is Stopped) the rest of its body runs. The rest launches a goroutine if and only
  if \<open>position + 2\<close> does not exceed the length of the stream; its pacing start and its
  stop bound are both \<open>position + 2\<close>, and the screen is cleared first. When the position
  is not below the length, nothing is requested and the call returns.
\<close>
theorem Forward_protocol:
  assumes "\<not> locked p"
  shows "(state p \<noteq> stateStopped \<longrightarrow>
            Forward p = Parked stateStopped Cont_Forward (p\<lparr>state := stateStopping, locked := False\<rparr>) None \<and>
            parked (foldl wake (Forward p) qs) = (\<forall>q\<in>set qs. state q \<noteq> stateStopped) \<and>
            (state q = stateStopped \<longrightarrow> wake (Forward p) q = Forward_rest (q\<lparr>locked := True\<rparr>))) \<and>
         (state p = stateStopped \<longrightarrow> Forward p = Forward_rest (p\<lparr>locked := True\<rparr>)) \<and>
         (- 1 \<le> position q \<longrightarrow>
            launched (Forward_rest (q\<lparr>locked := True\<rparr>)) =
              (if position q + 2 \<le> int (length (sessionEvents q))
               then Some (position q + 2, position q + 2) else None)) \<and>
         (- 1 \<le> position q \<and> position q + 2 \<le> int (length (sessionEvents q)) \<longrightarrow>
            Forward_rest (q\<lparr>locked := True\<rparr>) =
              Returned (q\<lparr>out := out q @ [Write (ESC # ''c'')], locked := False\<rparr>)
                (Some (position q + 2, position q + 2))) \<and>
         (int (length (sessionEvents q)) \<le> position q \<longrightarrow>
            Forward_rest (q\<lparr>locked := True\<rparr>) = Returned (q\<lparr>locked := False\<rparr>) None)"
proof (intro conjI impI)
  assume ns: "state p \<noteq> stateStopped"
  show 1: "Forward p = Parked stateStopped Cont_Forward (p\<lparr>state := stateStopping, locked := False\<rparr>) None"
    using assms ns by (rule Forward_parks)
  show "parked (foldl wake (Forward p) qs) = (\<forall>q\<in>set qs. state q \<noteq> stateStopped)"
    unfolding 1 by (rule foldl_wake_Parked)
  assume "state q = stateStopped"
  then show "wake (Forward p) q = Forward_rest (q\<lparr>locked := True\<rparr>)"
    unfolding 1 by (simp add: wake_Parked resume_def)
next
  assume "state p = stateStopped"
  with assms show "Forward p = Forward_rest (p\<lparr>locked := True\<rparr>)"
    by (simp add: Forward_def Let_def)
next
  assume "- 1 \<le> position q"
  then show "launched (Forward_rest (q\<lparr>locked := True\<rparr>)) =
              (if position q + 2 \<le> int (length (sessionEvents q))
               then Some (position q + 2, position q + 2) else None)"
    by (simp add: Forward_rest_launched)
next
  assume "- 1 \<le> position q \<and> position q + 2 \<le> int (length (sessionEvents q))"
  then show "Forward_rest (q\<lparr>locked := True\<rparr>) =
              Returned (q\<lparr>out := out q @ [Write (ESC # ''c'')], locked := False\<rparr>)
                (Some (position q + 2, position q + 2))"
    by (intro Forward_rest_valid) auto
next
  assume "int (length (sessionEvents q)) \<le> position q"
  then show "Forward_rest (q\<lparr>locked := True\<rparr>) = Returned (q\<lparr>locked := False\<rparr>) None"
    by (simp add: Forward_rest_def)
qed

theorem Forward_protocol_witness:
  "Forward playing =
     Parked stateStopped Cont_Forward (playing\<lparr>state := stateStopping, locked := False\<rparr>) None \<and>
   parked (foldl wake (Forward playing) [playing\<lparr>state := stateStopping\<rparr>]) \<and>
   wake (Forward playing) finished = Forward_rest (finished\<lparr>locked := True\<rparr>) \<and>
   Forward finished = Forward_rest (finished\<lparr>locked := True\<rparr>) \<and>
   launched (Forward_rest (playing\<lparr>locked := True\<rparr>)) = Some (2, 2) \<and>
   launched (Forward_rest (finished\<lparr>locked := True\<rparr>)) = None \<and>
   Forward_rest (playing\<lparr>locked := True\<rparr>) =
     Returned (playing\<lparr>out := out playing @ [Write (ESC # ''c'')], locked := False\<rparr>) (Some (2, 2)) \<and>
   Forward_rest (finished\<lparr>position := 3, locked := True\<rparr>) =
     Returned (finished\<lparr>position := 3, locked := False\<rparr>) None"
proof -
  have e: "position finished = 2" "position playing = 0"
    "int (length (sessionEvents finished)) = 3" "int (length (sessionEvents playing)) = 3"
    by (simp_all add: finished_fields playing_fields test_events_length)
  note t1 = Forward_protocol [OF playing_fields(1)]
  note t2 = Forward_protocol [OF finished_fields(1)]
  have f1: "state playing \<noteq> stateStopped" "state finished = stateStopped"
    by (simp_all add: playing_fields finished_fields)
  have f2: "\<forall>q\<in>set [playing\<lparr>state := stateStopping\<rparr>]. state q \<noteq> stateStopped"
    by simp
  from t1 [of "[playing\<lparr>state := stateStopping\<rparr>]" finished] f1 f2
  have 1: "Forward playing =
     Parked stateStopped Cont_Forward (playing\<lparr>state := stateStopping, locked := False\<rparr>) None"
    "parked (foldl wake (Forward playing) [playing\<lparr>state := stateStopping\<rparr>])"
    "wake (Forward playing) finished = Forward_rest (finished\<lparr>locked := True\<rparr>)"
    by blast+
  from t2 [of "[]" finished] f1
  have 2: "Forward finished = Forward_rest (finished\<lparr>locked := True\<rparr>)"
    by blast
  from t2 [of "[]" playing]
  have 3: "launched (Forward_rest (playing\<lparr>locked := True\<rparr>)) = Some (2, 2)"
    "Forward_rest (playing\<lparr>locked := True\<rparr>) =
     Returned (playing\<lparr>out := out playing @ [Write (ESC # ''c'')], locked := False\<rparr>) (Some (2, 2))"
    by (simp_all add: e launched_def)
  from t2 [of "[]" finished]
  have 4: "launched (Forward_rest (finished\<lparr>locked := True\<rparr>)) = None"
    by (simp add: e)
  from t2 [of "[]" "finished\<lparr>position := 3\<rparr>"]
  have 5: "Forward_rest (finished\<lparr>position := 3, locked := True\<rparr>) =
     Returned (finished\<lparr>position := 3, locked := False\<rparr>) None"
    by (simp add: e)
  from 1 2 3 4 5 show ?thesis by blast
qed

section \<open>Forward at the end of the stream\<close>

lemma Forward_rest_hangs:
  assumes "position q < int (length (sessionEvents q))"
    and "int (length (sessionEvents q)) < position q + 2"
  shows "Forward_rest (q\<lparr>locked := True\<rparr>) = Hung"
  using assms by (simp add: Forward_rest_def unlock_return_def playRange_def)

lemma Forward_at_last_index_hangs:
  assumes "\<not> locked p" and "state p = stateStopped"
    and "position p = int (length (sessionEvents p)) - 1"
  shows "Forward p = Hung"
  using assms Forward_rest_hangs [of p] by (simp add: Forward_def Let_def)

text \<open>
  Claim C2. A request out of range (\<open>to\<close> beyond the stream or \<open>from\<close> negative) launches
  no goroutine, and called without the mutex it sets the state to Stopped and returns
  (\<open>playRange_invalid\<close>). \<open>Rewind\<close> never makes such a request. \<open>Forward\<close> makes one when
  the position is the last index, and makes it with the mutex held: the check of
  \<open>playRange\<close> then locks the mutex a second time and the call never returns
  (\<open>Forward_at_last_index_hangs\<close>). Here it is at the player that \<open>Play\<close> leaves after
  it has run to the end of a stream of one print event: \<open>Forward\<close> hangs, and
  \<open>playRange(2, 2)\<close> under the held mutex is the deadlock.
\<close>
theorem Forward_at_end_of_stream_hangs:
  "run never (Play (newSessionPlayer [print_event 100 0 0] [] None)) =
     Inr \<lparr> locked = False, state = stateStopped, position = 0,
           sessionEvents = [print_event 100 0 0], stream = [], termSize = None,
           stopC_closes = 1, stopOnce = True,
           out = [Write (ESC # ''c''), Sleep (100 * Millisecond), Write []] \<rparr> \<and>
   Forward \<lparr> locked = False, state = stateStopped, position = 0,
           sessionEvents = [print_event 100 0 0], stream = [], termSize = None,
           stopC_closes = 1, stopOnce = True,
           out = [Write (ESC # ''c''), Sleep (100 * Millisecond), Write []] \<rparr> = Hung \<and>
   playRange \<lparr> locked = True, state = stateStopped, position = 0,
           sessionEvents = [print_event 100 0 0], stream = [], termSize = None,
           stopC_closes = 1, stopOnce = True,
           out = [Write (ESC # ''c''), Sleep (100 * Millisecond), Write []] \<rparr> 2 2 = Inl Deadlock"
  by code_simp

section \<open>TogglePause after the end of the stream\<close>

lemma rendering_no_Sleep: "Sleep d \<notin> set (rendering strm e)"
  by (simp add: rendering_def)

lemma played_beyond:
  assumes "int n \<le> from"
  shows "concat (map (\<lambda>i. (if from \<le> int i then pacing trm evs from i else []) @
                          rendering strm (evs ! i)) [0..<n]) =
         concat (map (\<lambda>i. rendering strm (evs ! i)) [0..<n])"
proof -
  have "map (\<lambda>i. (if from \<le> int i then pacing trm evs from i else []) @
                          rendering strm (evs ! i)) [0..<n] =
        map (\<lambda>i. rendering strm (evs ! i)) [0..<n]"
  proof (rule map_cong [OF refl])
    fix i assume "i \<in> set [0..<n]"
    then have "\<not> from \<le> int i" using assms by auto
    then show "(if from \<le> int i then pacing trm evs from i else []) @ rendering strm (evs ! i) =
        rendering strm (evs ! i)" by simp
  qed
  then show ?thesis by (rule arg_cong)
qed

lemma map_nth_all: "map (\<lambda>i. f (xs ! i)) [0..<length xs] = map f xs"
proof -
  have "map f (map ((!) xs) [0..<length xs]) = map f xs" by (simp only: map_nth)
  then show ?thesis unfolding map_map comp_def .
qed

text \<open>
  Claim C10. \<open>TogglePause\<close> on a stopped player whose position is the last index and
  whose completion signal has fired launches a goroutine with the pacing start and the
  stop bound at the length of the stream. Run without a stop request, it clears the screen
  and writes the rendering of every event of the stream, with no sleep anywhere; then
  the state is Stopped again and \<open>stopC\<close> has still been closed once.
\<close>
theorem TogglePause_after_end_replays:
  assumes "\<not> locked p" and "state p = stateStopped"
    and "position p = int (length (sessionEvents p)) - 1"
    and "stopOnce p" and "stopC_closes p = 1"
    and "\<forall>j<length (sessionEvents p). \<not> ctl j"
    and "\<forall>j<length (sessionEvents p). playable (stream p) (sessionEvents p ! j)"
  shows "\<exists>p'. TogglePause p =
                 Parked statePlaying Cont_return
                   (p\<lparr>out := out p @ [Write (ESC # ''c'')], locked := False\<rparr>)
                   (Some (int (length (sessionEvents p)), int (length (sessionEvents p)))) \<and>
               goroutine ctl (int (length (sessionEvents p))) (int (length (sessionEvents p)))
                 (p\<lparr>out := out p @ [Write (ESC # ''c'')], locked := False\<rparr>) = Inr p' \<and>
               out p' = out p @ Write (ESC # ''c'') # concat (map (rendering (stream p)) (sessionEvents p)) \<and>
               (\<forall>a\<in>set (concat (map (rendering (stream p)) (sessionEvents p))). \<forall>d. a \<noteq> Sleep d) \<and>
               state p' = stateStopped \<and> stopOnce p' \<and> stopC_closes p' = 1"
proof -
  let ?n = "length (sessionEvents p)"
  let ?r = "p\<lparr>out := out p @ [Write (ESC # ''c'')], locked := False\<rparr>"
  have tp: "TogglePause p = Parked statePlaying Cont_return ?r (Some (int ?n, int ?n))"
    using TogglePause_resumes [of p] assms(1,2,3) by simp
  have sel: "termSize ?r = termSize p" "sessionEvents ?r = sessionEvents p" "stream ?r = stream p"
    "position ?r = position p" "out ?r = out p @ [Write (ESC # ''c'')]" "nat (int ?n) = ?n"
    by simp_all
  have pre: "0 \<le> int ?n" "int ?n \<le> int (length (sessionEvents ?r))"
    "\<forall>j<nat (int ?n). \<not> ctl j"
    "\<forall>j<nat (int ?n). playable (stream ?r) (sessionEvents ?r ! j)"
    using assms(6,7) by auto
  note gr = goroutine_replay [OF pre, of "int ?n"]
  from gr [unfolded sel]
  obtain p' where g: "goroutine ctl (int ?n) (int ?n) ?r = Inr p'"
    and s: "state p' = stateStopped"
    and o: "out p' = (out p @ [Write (ESC # ''c'')]) @
             concat (map (\<lambda>i. (if int ?n \<le> int i
                               then pacing (termSize p) (sessionEvents p) (int ?n) i else []) @
                              rendering (stream p) (sessionEvents p ! i)) [0..<?n])"
    by blast
  have o': "out p' = out p @ Write (ESC # ''c'') # concat (map (rendering (stream p)) (sessionEvents p))"
    unfolding o played_beyond [OF order_refl] map_nth_all by simp
  have ns: "\<forall>a\<in>set (concat (map (rendering (stream p)) (sessionEvents p))). \<forall>d. a \<noteq> Sleep d"
    using rendering_no_Sleep by fastforce
  from goroutine_props [OF g] assms(4,5)
  have c: "stopOnce p'" "stopC_closes p' = 1" by simp_all
  from tp g o' ns s c show ?thesis by blast
qed

theorem TogglePause_after_end_replays_witness:
  "\<exists>p'. TogglePause finished =
          Parked statePlaying Cont_return
            (finished\<lparr>out := out finished @ [Write (ESC # ''c'')], locked := False\<rparr>) (Some (3, 3)) \<and>
        goroutine never 3 3 (finished\<lparr>out := out finished @ [Write (ESC # ''c'')], locked := False\<rparr>) = Inr p' \<and>
        out p' = out finished @ [Write (ESC # ''c''), Write [], Write [], Write []] \<and>
        state p' = stateStopped \<and> stopOnce p' \<and> stopC_closes p' = 1"
proof -
  have e: "int (length (sessionEvents finished)) = 3"
    by (simp add: finished_fields test_events_length)
  have h: "position finished = int (length (sessionEvents finished)) - 1"
    "\<forall>j<length (sessionEvents finished). \<not> never j"
    "\<forall>j<length (sessionEvents finished). playable (stream finished) (sessionEvents finished ! j)"
    using test_events_playable
    by (simp_all add: finished_fields test_events_length never_def)
  have r: "concat (map (rendering (stream finished)) (sessionEvents finished)) = [Write [], Write [], Write []]"
    by code_simp
  from TogglePause_after_end_replays [OF finished_fields(1,2) h(1) finished_fields(7,8) h(2,3),
      unfolded e r]
  show ?thesis by auto
qed

section \<open>The scenarios of the tests of the player\<close>

text \<open>
  \<open>TestEmptyPlay\<close>: playing no events stops at once and fires the completion signal.
  \<open>TestPlayPause\<close>: the run is stopped after two of the three events; the resumed run
  writes those two at once and sleeps before the third.
\<close>
lemma TestEmptyPlay:
  "run never (Play (newSessionPlayer [] [] None)) =
     Inr ((newSessionPlayer [] [] None)\<lparr>stopOnce := True, stopC_closes := 1, out := [Write (ESC # ''c'')]\<rparr>)"
  by code_simp

lemma TestPlayPause:
  "run (stop_at 2) (Play demo) =
     Inr (demo\<lparr>position := 1,
               out := [Write (ESC # ''c''), Sleep (100 * Millisecond), Write [],
                       Sleep (100 * Millisecond), Write []]\<rparr>) \<and>
   launched (TogglePause (demo\<lparr>position := 1\<rparr>)) = Some (2, 3) \<and>
   goroutine never 2 3 (demo\<lparr>position := 1\<rparr>) =
     Inr (demo\<lparr>position := 2, stopOnce := True, stopC_closes := 1,
               out := [Write [], Write [], Sleep (250 * Millisecond), Write []]\<rparr>)"
  by code_simp

end
